theory Spec2Isabelle
  imports Main "HOL-Library.Sublist" "HOL-Library.Multiset"
begin

section \<open>Strings\<close>

text \<open>
  A Python \<open>str\<close> is a sequence of Unicode code points. The replacements of the
  normalizer lie beyond U+00FF, so a string is modelled as the list of its code points.
\<close>

type_synonym ustr = "nat list"

definition asc :: "string \<Rightarrow> ustr" where
  "asc s = map of_char s"

text \<open>
  The characters for which \<open>str.isspace\<close> holds: the class that \<open>str.strip()\<close> removes
  and that \<open>\s\<close> matches in a \<open>str\<close> pattern.
\<close>

definition is_space :: "nat \<Rightarrow> bool" where
  "is_space c \<longleftrightarrow>
     (9 \<le> c \<and> c \<le> 13) \<or> (28 \<le> c \<and> c \<le> 32) \<or> c = 133 \<or> c = 160 \<or> c = 5760 \<or>
     (8192 \<le> c \<and> c \<le> 8202) \<or> c = 8232 \<or> c = 8233 \<or> c = 8239 \<or> c = 8287 \<or> c = 12288"

text \<open>\<open>s.find(sub)\<close>: the index of the first occurrence of \<open>sub\<close> in \<open>s\<close>.\<close>

fun find_sub :: "ustr \<Rightarrow> ustr \<Rightarrow> nat option" where
  "find_sub sub [] = (if sub = [] then Some 0 else None)"
| "find_sub sub (x # xs) =
     (if prefix sub (x # xs) then Some 0 else map_option Suc (find_sub sub xs))"

text \<open>\<open>s[i:j]\<close> for \<open>0 \<le> i \<le> j\<close>.\<close>

definition slice :: "ustr \<Rightarrow> nat \<Rightarrow> nat \<Rightarrow> ustr" where
  "slice s i j = take (j - i) (drop i s)"

section \<open>The LaTeX-like text normalizer\<close>

subsection \<open>Math regions: \<open>_MATH_RE\<close>\<close>

text \<open>
  \<open>_MATH_RE\<close> is an alternation of four branches, each an opening delimiter, a lazy
  \<open>.+?\<close> or \<open>.*?\<close> (with \<open>re.DOTALL\<close> the dot matches every character) and a
  closing delimiter. A branch is recorded as (opener, least body length, closer).
  The characters: 92 backslash, 40 and 41 round brackets, 91 and 93 square brackets,
  36 dollar.
\<close>

definition MATH_RE :: "(ustr \<times> nat \<times> ustr) list" where
  "MATH_RE =
     [([92, 40], 1, [92, 41]),
      ([92, 91], 1, [92, 93]),
      ([36, 36], 0, [36, 36]),
      ([36], 0, [36])]"

text \<open>
  One branch tried at the start of \<open>s\<close>: the opener must be a prefix; the lazy body
  grows from its least length until the closer follows, so the match ends at the first
  occurrence of the closer at or after that point. The result is the length of the match.
\<close>

definition branch_match :: "ustr \<Rightarrow> nat \<Rightarrow> ustr \<Rightarrow> ustr \<Rightarrow> nat option" where
  "branch_match opn m cls s =
     (if prefix opn s
      then map_option (\<lambda>k. length opn + m + k + length cls)
             (find_sub cls (drop (length opn + m) s))
      else None)"

text \<open>The alternation: the branches are tried in order, the first that matches wins.\<close>

fun alt_match :: "(ustr \<times> nat \<times> ustr) list \<Rightarrow> ustr \<Rightarrow> nat option" where
  "alt_match [] s = None"
| "alt_match ((opn, m, cls) # alts) s =
     (case branch_match opn m cls s of
        Some n \<Rightarrow> Some n
      | None \<Rightarrow> alt_match alts s)"

lemma find_sub_bound: "find_sub sub s = Some k \<Longrightarrow> k + length sub \<le> length s"
proof (induction s arbitrary: k)
  case Nil
  then show ?case by (simp split: if_splits)
next
  case (Cons x xs)
  show ?case
  proof (cases "prefix sub (x # xs)")
    case True
    with Cons.prems have "k = 0" by simp
    with prefix_length_le [OF True] show ?thesis by simp
  next
    case False
    with Cons.prems obtain j where "find_sub sub xs = Some j" "k = Suc j" by auto
    with Cons.IH show ?thesis by fastforce
  qed
qed

lemma branch_match_bound:
  assumes "branch_match opn m cls s = Some n" and "cls \<noteq> []"
  shows "length opn + m + length cls \<le> n \<and> n \<le> length s"
proof -
  from assms obtain k where k: "find_sub cls (drop (length opn + m) s) = Some k"
    and n: "n = length opn + m + k + length cls"
    by (auto simp: branch_match_def split: if_splits)
  from find_sub_bound [OF k] have le: "k + length cls \<le> length s - (length opn + m)" by simp
  from assms(2) have "0 < length cls" by simp
  with le n show ?thesis by arith
qed

lemma alt_match_MATH_RE_bound:
  assumes "alt_match MATH_RE s = Some n"
  shows "2 \<le> n \<and> n \<le> length s"
proof -
  from assms consider
      "branch_match [92, 40] 1 [92, 41] s = Some n"
    | "branch_match [92, 91] 1 [92, 93] s = Some n"
    | "branch_match [36, 36] 0 [36, 36] s = Some n"
    | "branch_match [36] 0 [36] s = Some n"
    by (auto simp: MATH_RE_def split: option.splits)
  then show ?thesis
    by cases (drule branch_match_bound, simp, simp)+
qed

text \<open>
  \<open>_MATH_RE.finditer(s)\<close>: the scan tries the pattern at \<open>pos\<close>; a match is reported as
  its \<open>(start, end)\<close> and the scan resumes at its end; otherwise it moves one character on.
\<close>

function finditer_from :: "ustr \<Rightarrow> nat \<Rightarrow> (nat \<times> nat) list" where
  "finditer_from s pos =
     (if length s \<le> pos then []
      else case alt_match MATH_RE (drop pos s) of
             Some n \<Rightarrow> (pos, pos + n) # finditer_from s (pos + n)
           | None \<Rightarrow> finditer_from s (Suc pos))"
  by pat_completeness auto
termination
proof (relation "measure (\<lambda>(s, pos). length s - pos)")
  show "wf (measure (\<lambda>(s, pos). length s - pos))" by simp
next
  fix s :: ustr and pos n :: nat
  assume "\<not> length s \<le> pos" "alt_match MATH_RE (drop pos s) = Some n"
  with alt_match_MATH_RE_bound [of "drop pos s" n]
  have "length s - (pos + n) < length s - pos" by simp arith
  then show "((s, pos + n), (s, pos)) \<in> measure (\<lambda>(s, pos). length s - pos)"
    by simp
next
  fix s :: ustr and pos :: nat
  assume "\<not> length s \<le> pos"
  then show "((s, Suc pos), (s, pos)) \<in> measure (\<lambda>(s, pos). length s - pos)"
    by simp
qed

declare finditer_from.simps [simp del]

definition finditer :: "ustr \<Rightarrow> (nat \<times> nat) list" where
  "finditer s = finditer_from s 0"

subsection \<open>The substitution table: \<open>_tex_replacements\<close>\<close>

text \<open>
  Eleven patterns of the table are literal strings; one is a literal followed by
  \<open>\s*\<close>, a greedy run of whitespace.
\<close>

datatype pattern = Literal ustr | LiteralSpaces ustr

text \<open>A pattern tried at the start of \<open>s\<close>: the text left after the match.\<close>

fun pat_match :: "pattern \<Rightarrow> ustr \<Rightarrow> ustr option" where
  "pat_match (Literal l) s =
     (if prefix l s then Some (drop (length l) s) else None)"
| "pat_match (LiteralSpaces l) s =
     (if prefix l s then Some (dropWhile is_space (drop (length l) s)) else None)"

text \<open>
  \<open>pat.sub(repl, chunk)\<close>: every non-overlapping match, leftmost first, is replaced.
  No replacement of the table holds a backslash, so each is inserted as it is. After
  an empty match the character at that place is copied and the scan moves on.
\<close>

fun re_sub :: "pattern \<Rightarrow> ustr \<Rightarrow> ustr \<Rightarrow> ustr" where
  "re_sub p repl [] = (case pat_match p [] of Some _ \<Rightarrow> repl | None \<Rightarrow> [])"
| "re_sub p repl (c # cs) =
     (case pat_match p (c # cs) of
        None \<Rightarrow> c # re_sub p repl cs
      | Some rest \<Rightarrow>
          if length rest < Suc (length cs) then repl @ re_sub p repl rest
          else repl @ c # re_sub p repl cs)"

text \<open>
  The table, in the order of the source. 45 hyphen, 96 backtick, 39 apostrophe,
  44 comma, 59 semicolon, 58 colon, 33 exclamation mark, 126 tilde, 47 slash,
  38 ampersand; 8212 em dash, 8211 en dash, 8220 and 8221 double quotes,
  8201 thin space, 8197 four-per-em space, 160 no-break space.
\<close>

definition tex_replacements :: "(pattern \<times> ustr) list" where
  "tex_replacements =
     [(Literal [45, 45, 45], [8212]),
      (Literal [45, 45], [8211]),
      (Literal [96, 96], [8220]),
      (Literal [39, 39], [8221]),
      (LiteralSpaces [92, 44], [8201]),
      (Literal [92, 59], [8197]),
      (Literal [92, 58], [8197]),
      (Literal [92, 33], []),
      (Literal [126], [160]),
      (Literal [92, 45], []),
      (Literal [92, 47], []),
      (Literal [92, 38], [38])]"

text \<open>\<open>for pat, repl in _tex_replacements: chunk = pat.sub(repl, chunk)\<close>\<close>

fun apply_replacements :: "(pattern \<times> ustr) list \<Rightarrow> ustr \<Rightarrow> ustr" where
  "apply_replacements [] chunk = chunk"
| "apply_replacements ((pat, repl) # rs) chunk = apply_replacements rs (re_sub pat repl chunk)"

subsection \<open>\<open>_apply_tex_outside_math\<close> and \<open>normalize_tex_like\<close>\<close>

text \<open>
  The loop over the matches, with its state \<open>pos\<close> and \<open>out\<close>: the text before a match
  is rewritten and appended when it is not empty, then the match itself is appended as
  it is.
\<close>

fun match_loop :: "ustr \<Rightarrow> (nat \<times> nat) list \<Rightarrow> nat \<Rightarrow> ustr list \<Rightarrow> nat \<times> ustr list" where
  "match_loop s [] pos out = (pos, out)"
| "match_loop s ((st, en) # ms) pos out =
     (let out1 = (if st > pos
                  then out @ [apply_replacements tex_replacements (slice s pos st)]
                  else out);
          out2 = out1 @ [slice s st en]
      in match_loop s ms en out2)"

definition apply_tex_outside_math :: "ustr \<Rightarrow> ustr" where
  "apply_tex_outside_math s =
     (let (pos, out) = match_loop s (finditer s) 0 [];
          out' = (if pos < length s
                  then out @ [apply_replacements tex_replacements (drop pos s)]
                  else out)
      in concat out')"

definition normalize_tex_like :: "ustr \<Rightarrow> ustr" where
  "normalize_tex_like s = (if s = [] then s else apply_tex_outside_math s)"

section \<open>The listing parser\<close>

subsection \<open>The parsed document\<close>

text \<open>
  \<open>parse_list\<close> hands the markup to BeautifulSoup, a library outside the repository,
  and reads the parsed document through selectors. The model starts from what the
  selectors return: the \<open>dt\<close> and the \<open>dd\<close> children of \<open>dl#articles\<close> in document
  order; for a \<open>dt\<close> its \<open>a\<close> elements, each with its \<open>href\<close> attribute if it has one;
  for a \<open>dd\<close> the text nodes of its first \<open>.list-title\<close>, \<open>p.mathjax\<close> and
  \<open>.list-subjects\<close> element, \<open>None\<close> when there is no such element.
\<close>

record dt_block =
  anchors :: "ustr option list"

record dd_block =
  list_title :: "ustr list option"
  p_mathjax :: "ustr list option"
  list_subjects :: "ustr list option"

text \<open>\<open>dt.select_one('a[href^="/abs/"]')\<close>, then \<open>a.get("href", "")\<close>.\<close>

fun select_one_abs :: "ustr option list \<Rightarrow> ustr option" where
  "select_one_abs [] = None"
| "select_one_abs (None # hs) = select_one_abs hs"
| "select_one_abs (Some h # hs) =
     (if prefix (asc ''/abs/'') h then Some h else select_one_abs hs)"

text \<open>\<open>str.strip()\<close> and \<open>separator.join\<close>.\<close>

definition strip :: "ustr \<Rightarrow> ustr" where
  "strip s = rev (dropWhile is_space (rev (dropWhile is_space s)))"

fun join :: "ustr \<Rightarrow> ustr list \<Rightarrow> ustr" where
  "join sep [] = []"
| "join sep [x] = x"
| "join sep (x # y # ys) = x @ sep @ join sep (y # ys)"

text \<open>
  \<open>el.get_text(sep, strip=True)\<close>: every text node is stripped, the empty ones are
  left out, the others are joined with the separator.
\<close>

definition get_text :: "ustr \<Rightarrow> ustr list \<Rightarrow> ustr" where
  "get_text sep nodes = join sep (filter (\<lambda>t. t \<noteq> []) (map strip nodes))"

text \<open>\<open>s.replace(old, new, 1)\<close>: the first occurrence only.\<close>

definition replace_first :: "ustr \<Rightarrow> ustr \<Rightarrow> ustr \<Rightarrow> ustr" where
  "replace_first old new s =
     (case find_sub old s of
        None \<Rightarrow> s
      | Some k \<Rightarrow> take k s @ new @ drop (k + length old) s)"

subsection \<open>The identifier\<close>

text \<open>
  In a \<open>str\<close> pattern \<open>\d\<close> matches every Unicode decimal digit, a class that depends
  on the Unicode version of the interpreter. It is a parameter \<open>dec\<close> of the model;
  \<open>ascii_digit\<close> is the part of it that every version has.
\<close>

definition ascii_digit :: "nat \<Rightarrow> bool" where
  "ascii_digit c \<longleftrightarrow> 48 \<le> c \<and> c \<le> 57"

text \<open>
  \<open>(\d{4}\.\d{5}(?:v\d+)?)\<close> tried at the start of \<open>s\<close>: four digits, a dot (46),
  five digits, then greedily a \<open>v\<close> (118) with at least one digit. The result is the
  text of the group.
\<close>

definition id_match :: "(nat \<Rightarrow> bool) \<Rightarrow> ustr \<Rightarrow> ustr option" where
  "id_match dec s =
     (if 10 \<le> length s \<and> list_all dec (take 4 s) \<and> s ! 4 = 46 \<and>
         list_all dec (take 5 (drop 5 s))
      then let rest = drop 10 s;
               ds = takeWhile dec (drop 1 rest)
           in Some (take 10 s @ (if prefix [118] rest \<and> ds \<noteq> [] then 118 # ds else []))
      else None)"

text \<open>\<open>re.search(r"/abs/(\d{4}\.\d{5}(?:v\d+)?)", href)\<close>: the leftmost match, its group 1.\<close>

fun re_search_abs :: "(nat \<Rightarrow> bool) \<Rightarrow> ustr \<Rightarrow> ustr option" where
  "re_search_abs dec [] = None"
| "re_search_abs dec (c # cs) =
     (if prefix (asc ''/abs/'') (c # cs)
      then (case id_match dec (drop 5 (c # cs)) of
              Some arxid \<Rightarrow> Some arxid
            | None \<Rightarrow> re_search_abs dec cs)
      else re_search_abs dec cs)"

subsection \<open>The subject codes\<close>

text \<open>The class \<open>[A-Za-z0-9.\-]\<close>; 46 is the dot and 45 the hyphen.\<close>

definition code_char :: "nat \<Rightarrow> bool" where
  "code_char c \<longleftrightarrow>
     (65 \<le> c \<and> c \<le> 90) \<or> (97 \<le> c \<and> c \<le> 122) \<or> (48 \<le> c \<and> c \<le> 57) \<or> c = 46 \<or> c = 45"

text \<open>
  \<open>\(([A-Za-z0-9.\-]+)\)\<close> tried at the start of \<open>s\<close>: an opening bracket (40), the
  greedy run of the class, a closing bracket (41). A shorter run would be followed by
  a character of the class, so giving characters back never helps. The result is the
  group and the text after the match.
\<close>

definition code_match :: "ustr \<Rightarrow> (ustr \<times> ustr) option" where
  "code_match s =
     (case s of
        [] \<Rightarrow> None
      | c # cs \<Rightarrow>
          (let tok = takeWhile code_char cs;
               rest = dropWhile code_char cs
           in if c = 40 \<and> tok \<noteq> [] \<and> prefix [41] rest
              then Some (tok, drop 1 rest)
              else None))"

lemma code_match_shorter: "code_match s = Some (tok, rest) \<Longrightarrow> length rest < length s"
proof -
  assume a: "code_match s = Some (tok, rest)"
  then obtain c cs where s: "s = c # cs" by (cases s) (auto simp: code_match_def)
  from a s have "rest = drop 1 (dropWhile code_char cs)"
    by (auto simp: code_match_def Let_def split: if_splits)
  moreover have "length (dropWhile code_char cs) \<le> length cs"
    by (rule length_dropWhile_le)
  ultimately show ?thesis using s by simp
qed

text \<open>\<open>re.findall\<close>: the groups of the non-overlapping matches, leftmost first.\<close>

function findall_codes :: "ustr \<Rightarrow> ustr list" where
  "findall_codes [] = []"
| "findall_codes (c # cs) =
     (case code_match (c # cs) of
        Some (tok, rest) \<Rightarrow> tok # findall_codes rest
      | None \<Rightarrow> findall_codes cs)"
  by pat_completeness auto
termination
proof (relation "measure length")
  show "wf (measure length)" by simp
next
  fix c :: nat and cs :: ustr and x2 :: "ustr \<times> ustr" and tok rest :: ustr
  assume "code_match (c # cs) = Some x2" "(tok, rest) = x2"
  then have "code_match (c # cs) = Some (tok, rest)" by simp
  from code_match_shorter [OF this]
  show "(rest, c # cs) \<in> measure length" by simp
next
  fix c :: nat and cs :: ustr
  show "(cs, c # cs) \<in> measure length" by simp
qed

subsection \<open>\<open>parse_list\<close>\<close>

record entry =
  id' :: ustr
  title :: ustr
  abstract :: ustr
  abs_url :: ustr
  codes :: "ustr set"

definition BASE :: ustr where
  "BASE = asc ''https://arxiv.org''"

text \<open>
  The body of the loop for one pair. \<open>None\<close> is a \<open>continue\<close>: nothing is appended.
\<close>

definition loop_body :: "(nat \<Rightarrow> bool) \<Rightarrow> dt_block \<Rightarrow> dd_block \<Rightarrow> entry option" where
  "loop_body dec dt dd =
     (case select_one_abs (anchors dt) of
        None \<Rightarrow> None
      | Some href \<Rightarrow>
          (case re_search_abs dec href of
             None \<Rightarrow> None
           | Some arxid \<Rightarrow>
               (let url = BASE @ href;
                    title0 = (case list_title dd of
                                Some t_el \<Rightarrow>
                                  strip (replace_first (asc ''Title:'') [] (get_text [32] t_el))
                              | None \<Rightarrow> []);
                    abstract0 = (case p_mathjax dd of
                                   Some p \<Rightarrow> get_text [32] p
                                 | None \<Rightarrow> []);
                    abstract1 = (if prefix (asc ''Abstract:'') abstract0
                                 then strip (drop (length (asc ''Abstract:'')) abstract0)
                                 else abstract0);
                    subj_txt = (case list_subjects dd of
                                  Some subj_el \<Rightarrow> get_text [32] subj_el
                                | None \<Rightarrow> [])
                in Some \<lparr>id' = arxid,
                         title = normalize_tex_like title0,
                         abstract = normalize_tex_like abstract1,
                         abs_url = url,
                         codes = set (findall_codes subj_txt)\<rparr>)))"

text \<open>\<open>for dt, dd in zip(dts, dds)\<close>, with the list \<open>entries\<close> as its state.\<close>

fun parse_loop :: "(nat \<Rightarrow> bool) \<Rightarrow> (dt_block \<times> dd_block) list \<Rightarrow> entry list \<Rightarrow> entry list" where
  "parse_loop dec [] entries = entries"
| "parse_loop dec ((dt, dd) # ps) entries =
     (case loop_body dec dt dd of
        None \<Rightarrow> parse_loop dec ps entries
      | Some e \<Rightarrow> parse_loop dec ps (entries @ [e]))"

definition parse_list :: "(nat \<Rightarrow> bool) \<Rightarrow> dt_block list \<Rightarrow> dd_block list \<Rightarrow> entry list" where
  "parse_list dec dts dds = parse_loop dec (zip dts dds) []"

section \<open>The buckets of \<open>main\<close>\<close>

text \<open>
  The loop of \<open>main\<close> over the parsed astro-ph entries, with the three lists
  \<open>pri_ga\<close>, \<open>pri_im\<close> and \<open>main_rest\<close> as its state.
\<close>

fun bucket_loop ::
  "entry list \<Rightarrow> entry list \<times> entry list \<times> entry list \<Rightarrow> entry list \<times> entry list \<times> entry list" where
  "bucket_loop [] (pri_ga, pri_im, main_rest) = (pri_ga, pri_im, main_rest)"
| "bucket_loop (e # es) (pri_ga, pri_im, main_rest) =
     (if asc ''astro-ph.GA'' \<in> codes e then bucket_loop es (pri_ga @ [e], pri_im, main_rest)
      else if asc ''astro-ph.IM'' \<in> codes e then bucket_loop es (pri_ga, pri_im @ [e], main_rest)
      else bucket_loop es (pri_ga, pri_im, main_rest @ [e]))"

definition buckets :: "entry list \<Rightarrow> entry list \<times> entry list \<times> entry list" where
  "buckets astro_entries = bucket_loop astro_entries ([], [], [])"


section \<open>Properties of the normalizer\<close>

subsection \<open>The partition into plain spans and protected regions\<close>

text \<open>
  The specification describes the input as an ordered partition into plain spans and
  protected regions, the regions being the matches of the scan. \<open>spans\<close> is that
  partition, \<open>render\<close> what the specification asks for each part, and \<open>span_text\<close> the
  text of the input that a part covers.
\<close>

datatype span = Plain ustr | Protected ustr

fun spans_from :: "ustr \<Rightarrow> (nat \<times> nat) list \<Rightarrow> nat \<Rightarrow> span list" where
  "spans_from s [] pos = (if pos < length s then [Plain (drop pos s)] else [])"
| "spans_from s ((st, en) # ms) pos =
     (if pos < st then [Plain (slice s pos st)] else []) @
     Protected (slice s st en) # spans_from s ms en"

definition spans :: "ustr \<Rightarrow> span list" where
  "spans s = spans_from s (finditer s) 0"

fun render :: "span \<Rightarrow> ustr" where
  "render (Plain t) = apply_replacements tex_replacements t"
| "render (Protected t) = t"

fun span_text :: "span \<Rightarrow> ustr" where
  "span_text (Plain t) = t"
| "span_text (Protected t) = t"

fun ordered_from :: "nat \<Rightarrow> nat \<Rightarrow> (nat \<times> nat) list \<Rightarrow> bool" where
  "ordered_from n pos [] = True"
| "ordered_from n pos ((st, en) # ms) = (pos \<le> st \<and> st < en \<and> en \<le> n \<and> ordered_from n en ms)"

lemma ordered_from_mono: "ordered_from n pos ms \<Longrightarrow> pos' \<le> pos \<Longrightarrow> ordered_from n pos' ms"
  by (cases ms) auto

lemma finditer_from_ordered: "ordered_from (length s) pos (finditer_from s pos)"
proof (induction s pos rule: finditer_from.induct)
  case (1 s pos)
  show ?case
  proof (cases "length s \<le> pos")
    case True
    then show ?thesis by (simp add: finditer_from.simps)
  next
    case False
    show ?thesis
    proof (cases "alt_match MATH_RE (drop pos s)")
      case None
      with False 1 have "ordered_from (length s) (Suc pos) (finditer_from s (Suc pos))" by simp
      then have "ordered_from (length s) pos (finditer_from s (Suc pos))"
        by (rule ordered_from_mono) simp
      with False None show ?thesis by (simp add: finditer_from.simps [of s pos])
    next
      case (Some n)
      from alt_match_MATH_RE_bound [OF Some] have "2 \<le> n" "pos + n \<le> length s" using False by auto
      moreover from False Some 1 have "ordered_from (length s) (pos + n) (finditer_from s (pos + n))"
        by simp
      ultimately show ?thesis using False Some by (simp add: finditer_from.simps [of s pos])
    qed
  qed
qed

lemma finditer_from_match:
  "(st, en) \<in> set (finditer_from s pos) \<Longrightarrow> alt_match MATH_RE (drop st s) = Some (en - st) \<and> st < en"
proof (induction s pos rule: finditer_from.induct)
  case (1 s pos)
  show ?case
  proof (cases "length s \<le> pos")
    case True
    with "1.prems" show ?thesis by (simp add: finditer_from.simps)
  next
    case False
    show ?thesis
    proof (cases "alt_match MATH_RE (drop pos s)")
      case None
      with False "1.prems" have "(st, en) \<in> set (finditer_from s (Suc pos))"
        by (simp add: finditer_from.simps [of s pos])
      with False None "1.IH"(1) show ?thesis by simp
    next
      case (Some n)
      from alt_match_MATH_RE_bound [OF Some] have n: "2 \<le> n" by simp
      from False Some "1.prems" consider "st = pos \<and> en = pos + n" | "(st, en) \<in> set (finditer_from s (pos + n))"
        by (auto simp add: finditer_from.simps [of s pos])
      then show ?thesis
      proof cases
        case 1
        with Some n show ?thesis by simp
      next
        case 2
        with False Some "1.IH"(2) show ?thesis by simp
      qed
    qed
  qed
qed

lemma match_loop_spans:
  "(case match_loop s ms pos out of
      (p, out') \<Rightarrow>
        concat (if p < length s
                then out' @ [apply_replacements tex_replacements (drop p s)]
                else out'))
   = concat out @ concat (map render (spans_from s ms pos))"
  by (induction ms arbitrary: pos out) (auto simp: Let_def)

lemma apply_tex_outside_math_spans:
  "apply_tex_outside_math s = concat (map render (spans s))"
  using match_loop_spans [of s "finditer s" 0 "[]"]
  by (simp add: apply_tex_outside_math_def spans_def Let_def split: prod.splits)

lemma spans_Nil: "spans [] = []"
  by (simp add: spans_def finditer_def finditer_from.simps)

lemma normalize_spans: "normalize_tex_like s = concat (map render (spans s))"
  by (simp add: normalize_tex_like_def apply_tex_outside_math_spans spans_Nil)

lemma slice_append_drop:
  "pos \<le> st \<Longrightarrow> st \<le> en \<Longrightarrow> slice s pos st @ slice s st en @ drop en s = drop pos s"
proof -
  assume a: "pos \<le> st" "st \<le> en"
  have "slice s st en @ drop en s = drop st s"
    using a by (metis slice_def add_diff_cancel_left' append_take_drop_id drop_drop le_Suc_ex add.commute)
  moreover have "slice s pos st @ drop st s = drop pos s"
    using a by (metis slice_def add_diff_cancel_left' append_take_drop_id drop_drop le_Suc_ex add.commute)
  ultimately show ?thesis by simp
qed

lemma spans_from_text:
  "ordered_from (length s) pos ms \<Longrightarrow> concat (map span_text (spans_from s ms pos)) = drop pos s"
proof (induction ms arbitrary: pos)
  case Nil
  then show ?case by simp
next
  case (Cons m ms)
  obtain st en where m: "m = (st, en)" by (cases m)
  from Cons.prems m have o: "pos \<le> st" "st < en" "en \<le> length s" "ordered_from (length s) en ms"
    by simp_all
  from Cons.IH [OF o(4)] have ih: "concat (map span_text (spans_from s ms en)) = drop en s" .
  have "pos = st \<Longrightarrow> slice s pos st = []" by (simp add: slice_def)
  then have "concat (map span_text (spans_from s (m # ms) pos))
      = slice s pos st @ slice s st en @ drop en s"
    using m ih o(1) by auto
  with slice_append_drop [of pos st en s] o show ?case by simp
qed

lemma spans_text: "concat (map span_text (spans s)) = s"
  using spans_from_text [OF finditer_from_ordered, of s 0] by (simp add: spans_def finditer_def)

lemma spans_from_protected:
  "Protected t \<in> set (spans_from s ms pos) \<Longrightarrow> \<exists>st en. (st, en) \<in> set ms \<and> t = slice s st en"
proof (induction ms arbitrary: pos)
  case Nil
  then show ?case by (simp split: if_splits)
next
  case (Cons m ms)
  obtain st en where m: "m = (st, en)" by (cases m)
  from Cons.prems m consider "t = slice s st en" | "Protected t \<in> set (spans_from s ms en)"
    by (auto split: if_splits)
  then show ?case
  proof cases
    case 1
    with m show ?thesis by auto
  next
    case 2
    from Cons.IH [OF 2] show ?thesis by auto
  qed
qed

lemma spans_from_plain:
  "ordered_from (length s) pos ms \<Longrightarrow> Plain t \<in> set (spans_from s ms pos) \<Longrightarrow>
     \<exists>i j. t = slice s i j"
proof (induction ms arbitrary: pos)
  case Nil
  then have "t = drop pos s" by (simp split: if_splits)
  then have "t = slice s pos (length s)" by (simp add: slice_def)
  then show ?case by blast
next
  case (Cons m ms)
  then show ?case by (cases m) (auto split: if_splits)
qed


lemma find_sub_Some_decomp:
  "find_sub c u = Some j \<Longrightarrow> j \<le> length u \<and> prefix c (drop j u)"
proof (induction u arbitrary: j)
  case Nil
  then show ?case by (simp split: if_splits)
next
  case (Cons x xs)
  show ?case
  proof (cases "prefix c (x # xs)")
    case True
    with Cons.prems show ?thesis by simp
  next
    case False
    with Cons.prems obtain i where i: "find_sub c xs = Some i" "j = Suc i" by auto
    from Cons.IH [OF i(1)] i(2) show ?thesis by simp
  qed
qed

lemma prefix_take_iff: "prefix c (take k u) \<longleftrightarrow> prefix c u \<and> length c \<le> k"
proof
  assume a: "prefix c (take k u)"
  then have "prefix c u" using take_is_prefix prefix_order.trans by blast
  moreover from a have "length c \<le> k" using prefix_length_le by fastforce
  ultimately show "prefix c u \<and> length c \<le> k" ..
next
  assume "prefix c u \<and> length c \<le> k"
  then obtain r where "u = c @ r" "length c \<le> k" by (auto simp: prefix_def)
  then show "prefix c (take k u)" by simp
qed

lemma find_sub_take:
  "find_sub c u = Some j \<Longrightarrow> j + length c \<le> k \<Longrightarrow> find_sub c (take k u) = Some j"
proof (induction u arbitrary: j k)
  case Nil
  then show ?case by (simp split: if_splits)
next
  case (Cons x xs)
  show ?case
  proof (cases "prefix c (x # xs)")
    case True
    with Cons.prems have j: "j = 0" by simp
    show ?thesis
    proof (cases k)
      case 0
      with Cons.prems j have "c = []" by simp
      with 0 j show ?thesis by simp
    next
      case (Suc k')
      from True Cons.prems j have "prefix c (take k (x # xs))" by (simp add: prefix_take_iff)
      with Suc j show ?thesis by simp
    qed
  next
    case False
    with Cons.prems obtain i where i: "find_sub c xs = Some i" "j = Suc i" by auto
    from Cons.prems i obtain k' where k: "k = Suc k'" "i + length c \<le> k'" by (cases k) auto
    from False have "\<not> prefix c (take k (x # xs))" by (simp add: prefix_take_iff)
    with Cons.IH [OF i(1) k(2)] k(1) i(2) show ?thesis by simp
  qed
qed

lemma find_sub_take_None:
  "find_sub c u = None \<Longrightarrow> find_sub c (take k u) = None"
proof (induction u arbitrary: k)
  case Nil
  then show ?case by simp
next
  case (Cons x xs)
  from Cons.prems have np: "\<not> prefix c (x # xs)" and r: "find_sub c xs = None"
    by (auto split: if_splits)
  from np have ne: "c \<noteq> []" by auto
  show ?case
  proof (cases k)
    case 0
    with ne show ?thesis by simp
  next
    case (Suc k')
    from np have "\<not> prefix c (take k (x # xs))" by (simp add: prefix_take_iff)
    with Suc Cons.IH [OF r] show ?thesis by simp
  qed
qed

lemma branch_match_take:
  assumes "branch_match opn m cls u = Some n"
  shows "branch_match opn m cls (take n u) = Some n"
proof -
  from assms obtain k where p: "prefix opn u"
    and k: "find_sub cls (drop (length opn + m) u) = Some k"
    and n: "n = length opn + m + k + length cls"
    by (auto simp: branch_match_def split: if_splits)
  from p n have p': "prefix opn (take n u)" by (simp add: prefix_take_iff)
  have "drop (length opn + m) (take n u) = take (k + length cls) (drop (length opn + m) u)"
    using n by (simp add: drop_take)
  with find_sub_take [OF k, of "k + length cls"]
  have "find_sub cls (drop (length opn + m) (take n u)) = Some k" by simp
  with p' n show ?thesis by (simp add: branch_match_def)
qed

lemma branch_match_take_None:
  assumes "branch_match opn m cls u = None"
  shows "branch_match opn m cls (take n u) = None"
proof (cases "prefix opn u")
  case False
  then show ?thesis by (simp add: branch_match_def prefix_take_iff)
next
  case True
  with assms have "find_sub cls (drop (length opn + m) u) = None"
    by (simp add: branch_match_def)
  from find_sub_take_None [OF this, of "n - (length opn + m)"]
  show ?thesis by (simp add: branch_match_def drop_take)
qed

lemma alt_match_take:
  "alt_match alts u = Some n \<Longrightarrow> alt_match alts (take n u) = Some n"
proof (induction alts)
  case Nil
  then show ?case by simp
next
  case (Cons a alts)
  obtain opn m cls where a: "a = (opn, m, cls)" by (cases a)
  show ?case
  proof (cases "branch_match opn m cls u")
    case None
    with Cons a branch_match_take_None [OF None, of n] show ?thesis by simp
  next
    case (Some k)
    with Cons.prems a have "k = n" by simp
    with Some branch_match_take [of opn m cls u n] a show ?thesis by simp
  qed
qed

lemma alt_match_branch:
  "alt_match alts u = Some n \<Longrightarrow> \<exists>(opn, m, cls) \<in> set alts. branch_match opn m cls u = Some n"
proof (induction alts)
  case Nil
  then show ?case by simp
next
  case (Cons a alts)
  obtain opn m cls where a: "a = (opn, m, cls)" by (cases a)
  show ?case
  proof (cases "branch_match opn m cls u")
    case None
    with Cons a show ?thesis by simp
  next
    case (Some k)
    with Cons.prems a show ?thesis by simp
  qed
qed

lemma branch_match_full:
  assumes "branch_match opn m cls t = Some (length t)"
  shows "\<exists>body. t = opn @ body @ cls \<and> m \<le> length body \<and>
           find_sub cls (drop m body @ cls) = Some (length body - m)"
proof -
  from assms obtain k where p: "prefix opn t"
    and k: "find_sub cls (drop (length opn + m) t) = Some k"
    and n: "length opn + m + k + length cls = length t"
    by (auto simp: branch_match_def split: if_splits)
  from p obtain r where r: "t = opn @ r" by (auto simp: prefix_def)
  with n have lr: "length r = m + k + length cls" by simp
  from k r have k': "find_sub cls (drop m r) = Some k" by simp
  from find_sub_Some_decomp [OF k'] have "prefix cls (drop k (drop m r))" by simp
  then obtain q where q: "drop (m + k) r = cls @ q" by (auto simp: prefix_def add.commute)
  then have "length (drop (m + k) r) = length cls + length q" by simp
  with lr have "q = []" by simp
  with q have dr: "drop (m + k) r = cls" by simp
  define body where "body = take (m + k) r"
  have rb: "r = body @ cls" using dr body_def by (metis append_take_drop_id)
  have lb: "length body = m + k" using lr body_def by simp
  from rb lb have "drop m r = drop m body @ cls" by simp
  with k' lb r rb show ?thesis by auto
qed

definition protected_region :: "ustr \<Rightarrow> bool" where
  "protected_region t \<longleftrightarrow>
     (\<exists>(opn, m, cls) \<in> set MATH_RE. \<exists>body.
        t = opn @ body @ cls \<and> m \<le> length body \<and>
        find_sub cls (drop m body @ cls) = Some (length body - m))"

lemma finditer_region:
  assumes "(st, en) \<in> set (finditer s)"
  shows "protected_region (slice s st en)"
proof -
  from assms finditer_from_match [of st en s 0]
  have m: "alt_match MATH_RE (drop st s) = Some (en - st)" by (simp add: finditer_def)
  from alt_match_MATH_RE_bound [OF m] have len: "length (slice s st en) = en - st"
    by (simp add: slice_def)
  from alt_match_take [OF m] have "alt_match MATH_RE (slice s st en) = Some (en - st)"
    by (simp add: slice_def)
  from alt_match_branch [OF this] len
  obtain opn m cls where "(opn, m, cls) \<in> set MATH_RE"
    "branch_match opn m cls (slice s st en) = Some (length (slice s st en))" by auto
  with branch_match_full [of opn m cls "slice s st en"] show ?thesis
    unfolding protected_region_def by blast
qed

lemmas normalizer_eval = normalize_tex_like_def apply_tex_outside_math_def finditer_def
  finditer_from.simps asc_def MATH_RE_def branch_match_def tex_replacements_def slice_def
  Let_def is_space_def spans_def

subsection \<open>Strings without source patterns\<close>

text \<open>The literal text with which a source pattern of the table starts.\<close>

fun pattern_core :: "pattern \<Rightarrow> ustr" where
  "pattern_core (Literal l) = l"
| "pattern_core (LiteralSpaces l) = l"

lemma find_sub_None_Cons:
  "find_sub c (x # xs) = None \<Longrightarrow> \<not> prefix c (x # xs) \<and> find_sub c xs = None"
  by (simp split: if_splits)

lemma find_sub_drop_None: "find_sub c u = None \<Longrightarrow> find_sub c (drop k u) = None"
proof (induction u arbitrary: k)
  case Nil
  then show ?case by simp
next
  case (Cons x xs)
  from find_sub_None_Cons [OF Cons.prems] have r: "find_sub c xs = None" by simp
  show ?case
  proof (cases k)
    case 0
    with Cons.prems show ?thesis by simp
  next
    case (Suc k')
    with Cons.IH [OF r] show ?thesis by simp
  qed
qed

lemma find_sub_slice_None: "find_sub c u = None \<Longrightarrow> find_sub c (slice u i j) = None"
  unfolding slice_def by (intro find_sub_take_None find_sub_drop_None)

lemma re_sub_absent:
  "find_sub (pattern_core p) t = None \<Longrightarrow> re_sub p repl t = t"
proof (induction t)
  case Nil
  then show ?case by (cases p) (auto split: if_splits)
next
  case (Cons c cs)
  from find_sub_None_Cons [OF Cons.prems]
  have np: "\<not> prefix (pattern_core p) (c # cs)" and r: "find_sub (pattern_core p) cs = None"
    by simp_all
  from np have "pat_match p (c # cs) = None" by (cases p) simp_all
  with Cons.IH [OF r] show ?case by simp
qed

lemma apply_replacements_absent:
  "\<forall>(p, r) \<in> set rs. find_sub (pattern_core p) t = None \<Longrightarrow> apply_replacements rs t = t"
proof (induction rs)
  case Nil
  then show ?case by simp
next
  case (Cons a rs)
  obtain p r where a: "a = (p, r)" by (cases a)
  from Cons.prems a have "find_sub (pattern_core p) t = None" by simp
  then have "re_sub p r t = t" by (rule re_sub_absent)
  moreover from Cons have "apply_replacements rs t = t" by simp
  ultimately show ?case using a by simp
qed

text \<open>
  Claim C9. A string in which none of the twelve source patterns occurs is returned
  unchanged by the normalizer, so normalizing it twice gives the same as normalizing it
  once.
\<close>

theorem normalize_fixed_point:
  assumes "\<forall>(p, r) \<in> set tex_replacements. find_sub (pattern_core p) s = None"
  shows "normalize_tex_like s = s
         \<and> normalize_tex_like (normalize_tex_like s) = normalize_tex_like s"
proof -
  have "render sp = span_text sp" if "sp \<in> set (spans s)" for sp
  proof (cases sp)
    case (Protected t)
    then show ?thesis by simp
  next
    case (Plain t)
    with that have "Plain t \<in> set (spans_from s (finditer_from s 0) 0)"
      by (simp add: spans_def finditer_def)
    from spans_from_plain [OF finditer_from_ordered this]
    obtain i j where "t = slice s i j" by blast
    with assms have "\<forall>(p, r) \<in> set tex_replacements. find_sub (pattern_core p) t = None"
      by (auto intro: find_sub_slice_None)
    from apply_replacements_absent [OF this] Plain show ?thesis by simp
  qed
  then have "map render (spans s) = map span_text (spans s)" by simp
  then have "concat (map render (spans s)) = concat (map span_text (spans s))" by (rule arg_cong)
  then have "normalize_tex_like s = s" by (simp only: normalize_spans spans_text)
  then show ?thesis by simp
qed

theorem normalize_fixed_point_witness:
  "list_all (\<lambda>(p, r). find_sub (pattern_core p) (asc ''a $x-y$ b - c'') = None) tex_replacements
   \<and> normalize_tex_like (asc ''a $x-y$ b - c'') = asc ''a $x-y$ b - c''
   \<and> normalize_tex_like (normalize_tex_like (asc ''a $x-y$ b - c''))
       = normalize_tex_like (asc ''a $x-y$ b - c'')"
proof -
  have h: "list_all (\<lambda>(p, r). find_sub (pattern_core p) (asc ''a $x-y$ b - c'') = None)
             tex_replacements"
    by (simp add: normalizer_eval)
  then have "\<forall>(p, r) \<in> set tex_replacements.
               find_sub (pattern_core p) (asc ''a $x-y$ b - c'') = None"
    by (simp only: list_all_iff)
  from normalize_fixed_point [OF this] h show ?thesis by blast
qed

subsection \<open>Openers without a closer\<close>

lemma find_sub_single_None_iff: "find_sub [c] u = None \<longleftrightarrow> c \<notin> set u"
  by (induction u) auto

lemma count_list_drop_le: "count_list (drop k u) x \<le> count_list u x"
proof (induction u arbitrary: k)
  case Nil
  then show ?case by simp
next
  case (Cons y ys)
  show ?case
  proof (cases k)
    case 0
    then show ?thesis by simp
  next
    case (Suc k')
    with Cons.IH [of k'] show ?thesis by (simp add: le_SucI)
  qed
qed

lemma finditer_from_no_match:
  "\<forall>pos. alt_match MATH_RE (drop pos s) = None \<Longrightarrow> finditer_from s pos = []"
proof (induction s pos rule: finditer_from.induct)
  case (1 s pos)
  show ?case
  proof (cases "length s \<le> pos")
    case True
    then show ?thesis by (simp add: finditer_from.simps)
  next
    case False
    from "1.prems" have n: "alt_match MATH_RE (drop pos s) = None" by simp
    with False "1.IH"(1) "1.prems" have "finditer_from s (Suc pos) = []" by simp
    with False n show ?thesis by (simp add: finditer_from.simps [of s pos])
  qed
qed

lemma no_match_no_region:
  assumes "alt_match MATH_RE (drop i s) = None"
  shows "i \<notin> fst ` set (finditer s)"
proof
  assume "i \<in> fst ` set (finditer s)"
  then obtain en where "(i, en) \<in> set (finditer_from s 0)" by (auto simp: finditer_def)
  from finditer_from_match [OF this] assms show False by simp
qed

lemma unterminated_backslash_opener:
  assumes "prefix [92, b] (drop i s)" and "b = 40 \<and> cls = [92, 41] \<or> b = 91 \<and> cls = [92, 93]"
    and "find_sub cls (drop (i + 3) s) = None"
  shows "alt_match MATH_RE (drop i s) = None"
proof -
  from assms(1) obtain r where r: "drop i s = 92 # b # r" by (auto simp: prefix_def)
  have d: "drop 3 (drop i s) = drop (i + 3) s" by (simp add: add.commute)
  from assms(2,3) r d show ?thesis
    by (auto simp: MATH_RE_def branch_match_def)
qed

lemma unterminated_dollar_opener:
  assumes "prefix [36] (drop i s)" and "find_sub [36] (drop (i + 1) s) = None"
  shows "alt_match MATH_RE (drop i s) = None"
proof -
  from assms(1) obtain r where r: "drop i s = 36 # r" by (auto simp: prefix_def)
  then have "drop 1 (drop i s) = r" by simp
  then have dr: "drop (i + 1) s = r" by (simp add: add.commute)
  with assms(2) have "36 \<notin> set r" by (simp add: find_sub_single_None_iff)
  then have "\<not> prefix [36, 36] (36 # r)" by (cases r) auto
  with r dr assms(2) show ?thesis
    by (simp add: MATH_RE_def branch_match_def)
qed

lemma unterminated_double_dollar:
  assumes "prefix [36, 36] (drop i s)" and "find_sub [36, 36] (drop (i + 2) s) = None"
  shows "alt_match MATH_RE (drop i s) = Some 2"
proof -
  from assms(1) obtain r where r: "drop i s = 36 # 36 # r" by (auto simp: prefix_def)
  then have "drop 2 (drop i s) = r" by simp
  then have dr: "drop (i + 2) s = r" by (simp add: add.commute)
  with r assms(2) show ?thesis
    by (simp add: MATH_RE_def branch_match_def)
qed

lemma no_closer_no_match:
  assumes "find_sub [92, 41] s = None" and "find_sub [92, 93] s = None"
    and "count_list s 36 \<le> 1"
  shows "alt_match MATH_RE (drop pos s) = None"
proof -
  define u where "u = drop pos s"
  have "find_sub [92, 41] (drop 3 u) = None"
    unfolding u_def by (intro find_sub_drop_None assms(1))
  then have b1: "branch_match [92, 40] 1 [92, 41] u = None"
    by (simp add: branch_match_def eval_nat_numeral)
  have "find_sub [92, 93] (drop 3 u) = None"
    unfolding u_def by (intro find_sub_drop_None assms(2))
  then have b2: "branch_match [92, 91] 1 [92, 93] u = None"
    by (simp add: branch_match_def eval_nat_numeral)
  have c: "count_list u 36 \<le> 1"
    using count_list_drop_le [of pos s 36] assms(3) by (simp add: u_def)
  have b3: "branch_match [36, 36] 0 [36, 36] u = None"
  proof (cases "prefix [36, 36] u")
    case True
    then obtain r where "u = 36 # 36 # r" by (auto simp: prefix_def)
    with c show ?thesis by simp
  next
    case False
    then show ?thesis by (simp add: branch_match_def)
  qed
  have b4: "branch_match [36] 0 [36] u = None"
  proof (cases "prefix [36] u")
    case True
    then obtain r where r: "u = 36 # r" by (auto simp: prefix_def)
    with c have "count_list r 36 = 0" by simp
    then have "36 \<notin> set r" using count_list_0_iff [of r 36] by blast
    then have "find_sub [36] r = None" by (simp add: find_sub_single_None_iff)
    with r show ?thesis by (simp add: branch_match_def)
  next
    case False
    then show ?thesis by (simp add: branch_match_def)
  qed
  from b1 b2 b3 b4 show ?thesis by (simp add: MATH_RE_def u_def)
qed

lemma no_region_whole_plain:
  assumes "finditer s = []"
  shows "normalize_tex_like s = apply_replacements tex_replacements s"
proof (cases "s = []")
  case True
  then show ?thesis by (simp add: normalize_tex_like_def tex_replacements_def)
next
  case False
  with assms have "spans s = [Plain s]" by (simp add: spans_def)
  then show ?thesis by (simp add: normalize_spans)
qed

lemma unterminated_opener_scan:
  "(prefix [92, 40] (drop i s) \<and> find_sub [92, 41] (drop (i + 3) s) = None
      \<longrightarrow> i \<notin> fst ` set (finditer s))
   \<and> (prefix [92, 91] (drop i s) \<and> find_sub [92, 93] (drop (i + 3) s) = None
      \<longrightarrow> i \<notin> fst ` set (finditer s))
   \<and> (prefix [36] (drop i s) \<and> find_sub [36] (drop (i + 1) s) = None
      \<longrightarrow> i \<notin> fst ` set (finditer s))
   \<and> (prefix [36, 36] (drop i s) \<and> find_sub [36, 36] (drop (i + 2) s) = None
      \<longrightarrow> (\<forall>en. (i, en) \<in> set (finditer s) \<longrightarrow> en = i + 2))
   \<and> (find_sub [92, 41] s = None \<and> find_sub [92, 93] s = None \<and> count_list s 36 \<le> 1
      \<longrightarrow> finditer s = [] \<and> normalize_tex_like s = apply_replacements tex_replacements s)"
proof (intro conjI impI allI)
  assume "prefix [92, 40] (drop i s) \<and> find_sub [92, 41] (drop (i + 3) s) = None"
  then show "i \<notin> fst ` set (finditer s)"
    by (intro no_match_no_region unterminated_backslash_opener [of 40 i s "[92, 41]"]) simp_all
next
  assume "prefix [92, 91] (drop i s) \<and> find_sub [92, 93] (drop (i + 3) s) = None"
  then show "i \<notin> fst ` set (finditer s)"
    by (intro no_match_no_region unterminated_backslash_opener [of 91 i s "[92, 93]"]) simp_all
next
  assume "prefix [36] (drop i s) \<and> find_sub [36] (drop (i + 1) s) = None"
  then show "i \<notin> fst ` set (finditer s)"
    by (intro no_match_no_region unterminated_dollar_opener) simp_all
next
  fix en
  assume a: "prefix [36, 36] (drop i s) \<and> find_sub [36, 36] (drop (i + 2) s) = None"
    and m: "(i, en) \<in> set (finditer s)"
  from a have "alt_match MATH_RE (drop i s) = Some 2" by (intro unterminated_double_dollar) simp_all
  moreover from m have "alt_match MATH_RE (drop i s) = Some (en - i) \<and> i < en"
    using finditer_from_match [of i en s 0] by (simp add: finditer_def)
  ultimately show "en = i + 2" by simp
next
  assume a: "find_sub [92, 41] s = None \<and> find_sub [92, 93] s = None \<and> count_list s 36 \<le> 1"
  then have "\<forall>pos. alt_match MATH_RE (drop pos s) = None"
    by (intro allI no_closer_no_match) simp_all
  then show f: "finditer s = []" by (simp add: finditer_def finditer_from_no_match)
  then show "normalize_tex_like s = apply_replacements tex_replacements s"
    by (rule no_region_whole_plain)
qed

section \<open>The normalizer against the specification\<close>

subsection \<open>The scan, in the words of the specification\<close>

text \<open>
  The specification has the input scanned from left to right for protected regions,
  delimited by one of four pairs, \<open>\(\<close> and \<open>\)\<close>, \<open>\[\<close> and \<open>\]\<close>, \<open>$$\<close> and \<open>$$\<close>,
  \<open>$\<close> and \<open>$\<close>, tried at each position in this order, each region ending at the
  first closing delimiter that can end it. The definitions below say this with
  positions in the string and use nothing of the model of \<open>_MATH_RE\<close>:
  \<open>occurs_at sub s i\<close> holds when \<open>sub\<close> stands in \<open>s\<close> at position \<open>i\<close>, \<open>first_at sub s k\<close>
  is the first position at or after \<open>k\<close> where it stands, and \<open>region_end s i\<close> is the
  end of the region that starts at position \<open>i\<close>, if one does. As the pattern asks, a
  region between backslash delimiters has at least one character between them, and a
  region between dollars may have none.
\<close>

definition occurs_at :: "ustr \<Rightarrow> ustr \<Rightarrow> nat \<Rightarrow> bool" where
  "occurs_at sub s i \<longleftrightarrow> slice s i (i + length sub) = sub"

definition first_at :: "ustr \<Rightarrow> ustr \<Rightarrow> nat \<Rightarrow> nat option" where
  "first_at sub s k = List.find (occurs_at sub s) [k ..< Suc (length s)]"

definition region_end :: "ustr \<Rightarrow> nat \<Rightarrow> nat option" where
  "region_end s i =
     (if occurs_at [92, 40] s i then map_option (\<lambda>p. p + 2) (first_at [92, 41] s (i + 3))
      else if occurs_at [92, 91] s i then map_option (\<lambda>p. p + 2) (first_at [92, 93] s (i + 3))
      else if occurs_at [36, 36] s i \<and> first_at [36, 36] s (i + 2) \<noteq> None
        then map_option (\<lambda>p. p + 2) (first_at [36, 36] s (i + 2))
      else if occurs_at [36] s i then map_option (\<lambda>p. p + 1) (first_at [36] s (i + 1))
      else None)"

lemma prefix_iff_take: "prefix c v \<longleftrightarrow> take (length c) v = c"
proof
  assume "prefix c v"
  then show "take (length c) v = c" by (auto simp: prefix_def)
next
  assume "take (length c) v = c"
  then show "prefix c v" by (metis take_is_prefix)
qed

lemma occurs_at_prefix: "occurs_at sub s i \<longleftrightarrow> prefix sub (drop i s)"
  by (simp add: occurs_at_def slice_def prefix_iff_take)

lemma occurs_at_bound: "occurs_at sub s i \<Longrightarrow> sub \<noteq> [] \<Longrightarrow> i + length sub \<le> length s"
proof -
  assume a: "occurs_at sub s i" "sub \<noteq> []"
  then have "length sub \<le> length (drop i s)"
    using prefix_length_le by (simp only: occurs_at_prefix)
  moreover from a(2) obtain x xs where "sub = x # xs" by (cases sub) auto
  ultimately show ?thesis by auto
qed

lemma first_at_find_sub:
  assumes "cls \<noteq> []"
  shows "first_at cls s k = map_option (\<lambda>j. k + j) (find_sub cls (drop k s))"
proof (induction "length s - k" arbitrary: k)
  case 0
  then have ge: "length s \<le> k" by simp
  then have d: "drop k s = []" by simp
  have "\<not> occurs_at cls s k" using assms d by (simp add: occurs_at_prefix)
  then have "first_at cls s k = None"
    using ge unfolding first_at_def by (cases "k = length s") auto
  with d assms show ?case by simp
next
  case (Suc n)
  then have lt: "k < length s" and n: "n = length s - Suc k" by simp_all
  from lt have u: "[k ..< Suc (length s)] = k # [Suc k ..< Suc (length s)]"
    by (simp add: upt_rec)
  from lt have d: "drop k s = s ! k # drop (Suc k) s" by (simp add: Cons_nth_drop_Suc)
  show ?case
  proof (cases "occurs_at cls s k")
    case True
    then have "prefix cls (s ! k # drop (Suc k) s)" using d by (simp add: occurs_at_prefix)
    with True u d show ?thesis by (simp add: first_at_def)
  next
    case False
    then have np: "\<not> prefix cls (s ! k # drop (Suc k) s)" using d by (simp add: occurs_at_prefix)
    from False u have "first_at cls s k = first_at cls s (Suc k)" by (simp add: first_at_def)
    also have "\<dots> = map_option (\<lambda>j. Suc k + j) (find_sub cls (drop (Suc k) s))"
      by (rule Suc.hyps(1) [OF n])
    also have "\<dots> = map_option (\<lambda>j. k + j) (find_sub cls (drop k s))"
      using np d by (simp add: option.map_comp comp_def)
    finally show ?thesis .
  qed
qed

lemma branch_match_first_at:
  assumes "cls \<noteq> []"
  shows "map_option (\<lambda>n. i + n) (branch_match opn m cls (drop i s)) =
     (if occurs_at opn s i
      then map_option (\<lambda>p. p + length cls) (first_at cls s (i + length opn + m))
      else None)"
proof -
  have "drop (length opn + m) (drop i s) = drop (i + length opn + m) s"
    by (simp add: add.commute add.left_commute)
  then show ?thesis
    by (simp add: branch_match_def occurs_at_prefix first_at_find_sub [OF assms]
        option.map_comp comp_def add.assoc)
qed

lemma alt_match_region_end:
  "map_option (\<lambda>n. i + n) (alt_match MATH_RE (drop i s)) = region_end s i"
proof -
  have b1: "map_option (\<lambda>n. i + n) (branch_match [92, 40] 1 [92, 41] (drop i s)) =
     (if occurs_at [92, 40] s i then map_option (\<lambda>p. p + 2) (first_at [92, 41] s (i + 3)) else None)"
    using branch_match_first_at [of "[92, 41]" i "[92, 40]" 1 s]
    by (simp add: eval_nat_numeral)
  have b2: "map_option (\<lambda>n. i + n) (branch_match [92, 91] 1 [92, 93] (drop i s)) =
     (if occurs_at [92, 91] s i then map_option (\<lambda>p. p + 2) (first_at [92, 93] s (i + 3)) else None)"
    using branch_match_first_at [of "[92, 93]" i "[92, 91]" 1 s]
    by (simp add: eval_nat_numeral)
  have b3: "map_option (\<lambda>n. i + n) (branch_match [36, 36] 0 [36, 36] (drop i s)) =
     (if occurs_at [36, 36] s i then map_option (\<lambda>p. p + 2) (first_at [36, 36] s (i + 2)) else None)"
    using branch_match_first_at [of "[36, 36]" i "[36, 36]" 0 s]
    by (simp add: eval_nat_numeral)
  have b4: "map_option (\<lambda>n. i + n) (branch_match [36] 0 [36] (drop i s)) =
     (if occurs_at [36] s i then map_option (\<lambda>p. p + 1) (first_at [36] s (i + 1)) else None)"
    using branch_match_first_at [of "[36]" i "[36]" 0 s]
    by (simp add: eval_nat_numeral)
  have x1: "\<not> (occurs_at [92, 40] s i \<and> occurs_at [92, 91] s i)"
    "\<not> (occurs_at [92, 40] s i \<and> occurs_at [36, 36] s i)"
    "\<not> (occurs_at [92, 40] s i \<and> occurs_at [36] s i)"
    "\<not> (occurs_at [92, 91] s i \<and> occurs_at [36, 36] s i)"
    "\<not> (occurs_at [92, 91] s i \<and> occurs_at [36] s i)"
    by (auto simp: occurs_at_prefix prefix_def)
  show ?thesis
  proof (cases "branch_match [92, 40] 1 [92, 41] (drop i s)")
    case (Some n)
    with b1 show ?thesis by (auto simp: MATH_RE_def region_end_def split: if_splits)
  next
    case n1: None
    show ?thesis
    proof (cases "branch_match [92, 91] 1 [92, 93] (drop i s)")
      case (Some n)
      with n1 b1 b2 x1 show ?thesis
        by (auto simp: MATH_RE_def region_end_def split: if_splits)
    next
      case n2: None
      show ?thesis
      proof (cases "branch_match [36, 36] 0 [36, 36] (drop i s)")
        case (Some n)
        with n1 n2 b1 b2 b3 x1 show ?thesis
          by (auto simp: MATH_RE_def region_end_def split: if_splits)
      next
        case n3: None
        with n1 n2 b1 b2 b3 b4 x1 show ?thesis
          by (cases "branch_match [36] 0 [36] (drop i s)")
             (auto simp: MATH_RE_def region_end_def split: if_splits)
      qed
    qed
  qed
qed

lemma region_end_None: "region_end s i = None \<longleftrightarrow> alt_match MATH_RE (drop i s) = None"
  by (simp add: alt_match_region_end [symmetric])

lemma region_end_Some:
  "region_end s i = Some q \<longleftrightarrow> (\<exists>n. alt_match MATH_RE (drop i s) = Some n \<and> q = i + n)"
  by (auto simp: alt_match_region_end [symmetric])


subsection \<open>The normalizer from one region to the next\<close>

lemma rules_Nil: "apply_replacements tex_replacements [] = []"
  by (simp add: tex_replacements_def)

lemma finditer_from_skip:
  assumes "\<forall>i. pos \<le> i \<and> i < p \<longrightarrow> alt_match MATH_RE (drop i s) = None"
    and "pos \<le> p" and "p \<le> length s"
  shows "finditer_from s pos = finditer_from s p"
  using assms
proof (induction "p - pos" arbitrary: pos)
  case 0
  then show ?case by simp
next
  case (Suc n)
  then have lt: "pos < p" and n: "n = p - Suc pos" by simp_all
  from Suc.prems(1) lt have none: "alt_match MATH_RE (drop pos s) = None" by simp
  from lt Suc.prems(3) have "\<not> length s \<le> pos" by simp
  with none have "finditer_from s pos = finditer_from s (Suc pos)"
    by (simp add: finditer_from.simps [of s pos])
  also have "\<dots> = finditer_from s p"
    using Suc.prems lt by (intro Suc.hyps(1) [OF n]) simp_all
  finally show ?case .
qed

lemma finditer_from_shift:
  "finditer_from s (q + k) = map (\<lambda>(a, b). (q + a, q + b)) (finditer_from (drop q s) k)"
proof (induction "drop q s" k rule: finditer_from.induct)
  case (1 k)
  have len: "length s \<le> q + k \<longleftrightarrow> length (drop q s) \<le> k" by auto
  have dr: "drop (q + k) s = drop k (drop q s)" by (simp add: add.commute)
  show ?case
  proof (cases "length (drop q s) \<le> k")
    case True
    with len show ?thesis
      by (simp add: finditer_from.simps [of s "q + k"] finditer_from.simps [of "drop q s" k])
  next
    case False
    show ?thesis
    proof (cases "alt_match MATH_RE (drop k (drop q s))")
      case None
      with False "1.hyps"(1) have "finditer_from s (q + Suc k) =
          map (\<lambda>(a, b). (q + a, q + b)) (finditer_from (drop q s) (Suc k))" by simp
      with False None len dr show ?thesis
        by (simp add: finditer_from.simps [of s "q + k"] finditer_from.simps [of "drop q s" k])
    next
      case (Some n)
      with False "1.hyps"(2) have "finditer_from s (q + (k + n)) =
          map (\<lambda>(a, b). (q + a, q + b)) (finditer_from (drop q s) (k + n))" by simp
      with False Some len dr show ?thesis
        by (simp add: finditer_from.simps [of s "q + k"] finditer_from.simps [of "drop q s" k]
            add.assoc)
    qed
  qed
qed

lemma slice_shift: "slice s (q + a) (q + b) = slice (drop q s) a b"
  by (simp add: slice_def add.commute)

lemma spans_from_shift:
  "spans_from s (map (\<lambda>(a, b). (q + a, q + b)) ms) (q + pos) = spans_from (drop q s) ms pos"
proof (induction ms arbitrary: pos)
  case Nil
  have "drop (q + pos) s = drop pos (drop q s)" by (simp add: add.commute)
  moreover have "q + pos < length s \<longleftrightarrow> pos < length s - q" by auto
  ultimately show ?case by simp
next
  case (Cons m ms)
  obtain a b where m: "m = (a, b)" by (cases m)
  from Cons.IH [of b] m show ?case by (simp add: slice_shift)
qed

lemma normalize_drop_spans:
  "concat (map render (spans_from s (finditer_from s q) q)) = normalize_tex_like (drop q s)"
proof -
  have "finditer_from s q = map (\<lambda>(a, b). (q + a, q + b)) (finditer_from (drop q s) 0)"
    using finditer_from_shift [of s q 0] by simp
  then have "spans_from s (finditer_from s q) q = spans_from (drop q s) (finditer_from (drop q s) 0) 0"
    using spans_from_shift [of s q "finditer_from (drop q s) 0" 0] by simp
  then show ?thesis by (simp add: normalize_spans spans_def finditer_def)
qed

lemma normalize_no_region:
  assumes "list_all (\<lambda>i. region_end s i = None) [0 ..< length s]"
  shows "normalize_tex_like s = apply_replacements tex_replacements s"
proof -
  have "alt_match MATH_RE (drop pos s) = None" for pos
  proof (cases "pos < length s")
    case True
    with assms have "region_end s pos = None" by (simp add: list_all_iff)
    then show ?thesis by (simp only: region_end_None)
  next
    case False
    then show ?thesis by (simp add: MATH_RE_def branch_match_def)
  qed
  then have "finditer s = []" by (simp add: finditer_def finditer_from_no_match)
  then show ?thesis by (rule no_region_whole_plain)
qed

lemma normalize_first_region:
  assumes p: "p < length s"
    and none: "list_all (\<lambda>i. region_end s i = None) [0 ..< p]"
    and some: "region_end s p = Some q"
  shows "normalize_tex_like s =
     apply_replacements tex_replacements (take p s) @ slice s p q @ normalize_tex_like (drop q s)"
proof -
  from some obtain n where n: "alt_match MATH_RE (drop p s) = Some n" "q = p + n"
    by (auto simp: region_end_Some)
  from none have "\<forall>i. 0 \<le> i \<and> i < p \<longrightarrow> alt_match MATH_RE (drop i s) = None"
    by (simp add: list_all_iff region_end_None)
  from finditer_from_skip [OF this] p have "finditer s = finditer_from s p"
    by (simp add: finditer_def)
  also from p n have "\<dots> = (p, q) # finditer_from s q"
    by (simp add: finditer_from.simps [of s p])
  finally have f: "finditer s = (p, q) # finditer_from s q" .
  have "concat (map render (spans s)) =
      (if 0 < p then apply_replacements tex_replacements (slice s 0 p) else [])
      @ slice s p q @ concat (map render (spans_from s (finditer_from s q) q))"
    by (simp add: spans_def f)
  moreover have "(if 0 < p then apply_replacements tex_replacements (slice s 0 p) else [])
      = apply_replacements tex_replacements (take p s)"
    by (simp add: slice_def rules_Nil)
  ultimately show ?thesis by (simp only: normalize_spans normalize_drop_spans)
qed

lemma finditer_region_end:
  assumes "(st, en) \<in> set (finditer s)"
  shows "region_end s st = Some en"
proof -
  from assms finditer_from_match [of st en s 0]
  have "alt_match MATH_RE (drop st s) = Some (en - st)" "st < en" by (simp_all add: finditer_def)
  then show ?thesis by (simp add: region_end_Some)
qed

text \<open>
  Claim C1. For every input string the output of the normalizer is the concatenation, in
  the order of the input, of the rewritten plain spans and of the protected regions
  copied as they are, delimiters included, and the spans and regions together are the
  whole input. Every protected region is a match of one branch of the pattern, an
  opener, a body and the first closer that follows, and it ends where the scan of the
  specification ends the region that starts there. The regions are those of that scan:
  when no region starts at any position, the whole string is one plain span; when the
  first region starts at \<open>p\<close> and ends at \<open>q\<close>, the output is the rewritten text before
  \<open>p\<close>, the region from \<open>p\<close> to \<open>q\<close> as it is, and the normalized rest, so the scan
  goes on after each region. The last part is an input with a region of each of the four
  kinds, each with two hyphens inside that stay, between plain spans whose hyphens
  become an en dash.
\<close>

theorem normalizer_protects_math:
  "normalize_tex_like s = concat (map render (spans s))
   \<and> concat (map span_text (spans s)) = s
   \<and> (\<forall>t. Protected t \<in> set (spans s) \<longrightarrow> protected_region t)
   \<and> (\<forall>st en. (st, en) \<in> set (finditer s) \<longrightarrow> region_end s st = Some en)
   \<and> (list_all (\<lambda>i. region_end s i = None) [0 ..< length s]
        \<longrightarrow> normalize_tex_like s = apply_replacements tex_replacements s)
   \<and> (p < length s \<and> list_all (\<lambda>i. region_end s i = None) [0 ..< p] \<and> region_end s p = Some q
        \<longrightarrow> normalize_tex_like s =
             apply_replacements tex_replacements (take p s) @ slice s p q
             @ normalize_tex_like (drop q s))
   \<and> normalize_tex_like
        (asc ''a--b '' @ [92, 40] @ asc ''c--d'' @ [92, 41] @ asc '' e--f '' @ [92, 91] @ asc ''g--h''
         @ [92, 93] @ asc '' i--j $$k--l$$ m--n $o--p$ q--r'')
       = asc ''a'' @ [8211] @ asc ''b '' @ [92, 40] @ asc ''c--d'' @ [92, 41] @ asc '' e'' @ [8211]
         @ asc ''f '' @ [92, 91] @ asc ''g--h'' @ [92, 93] @ asc '' i'' @ [8211]
         @ asc ''j $$k--l$$ m'' @ [8211] @ asc ''n $o--p$ q'' @ [8211] @ asc ''r''"
proof (intro conjI allI impI)
  show "normalize_tex_like s = concat (map render (spans s))" by (rule normalize_spans)
  show "concat (map span_text (spans s)) = s" by (rule spans_text)
next
  fix t assume "Protected t \<in> set (spans s)"
  then obtain st en where "(st, en) \<in> set (finditer s)" "t = slice s st en"
    using spans_from_protected [of t s "finditer s" 0] by (auto simp: spans_def)
  then show "protected_region t" using finditer_region by simp
next
  fix st en assume "(st, en) \<in> set (finditer s)"
  then show "region_end s st = Some en" by (rule finditer_region_end)
next
  assume "list_all (\<lambda>i. region_end s i = None) [0 ..< length s]"
  then show "normalize_tex_like s = apply_replacements tex_replacements s"
    by (rule normalize_no_region)
next
  assume "p < length s \<and> list_all (\<lambda>i. region_end s i = None) [0 ..< p] \<and> region_end s p = Some q"
  then show "normalize_tex_like s =
             apply_replacements tex_replacements (take p s) @ slice s p q
             @ normalize_tex_like (drop q s)"
    by (intro normalize_first_region) simp_all
next
  show "normalize_tex_like
        (asc ''a--b '' @ [92, 40] @ asc ''c--d'' @ [92, 41] @ asc '' e--f '' @ [92, 91] @ asc ''g--h''
         @ [92, 93] @ asc '' i--j $$k--l$$ m--n $o--p$ q--r'')
       = asc ''a'' @ [8211] @ asc ''b '' @ [92, 40] @ asc ''c--d'' @ [92, 41] @ asc '' e'' @ [8211]
         @ asc ''f '' @ [92, 91] @ asc ''g--h'' @ [92, 93] @ asc '' i'' @ [8211]
         @ asc ''j $$k--l$$ m'' @ [8211] @ asc ''n $o--p$ q'' @ [8211] @ asc ''r''"
    by (simp add: normalizer_eval)
qed

text \<open>The definitions that evaluate the scan of the specification on a given string.\<close>

lemmas scan_eval = region_end_def occurs_at_def first_at_def slice_def asc_def

theorem normalizer_protects_math_witness:
  "5 < length (asc ''a--b '' @ [92, 40] @ asc ''c--d'' @ [92, 41] @ asc '' e--f'')
   \<and> list_all (\<lambda>i. region_end (asc ''a--b '' @ [92, 40] @ asc ''c--d'' @ [92, 41] @ asc '' e--f'') i
         = None) [0 ..< 5]
   \<and> region_end (asc ''a--b '' @ [92, 40] @ asc ''c--d'' @ [92, 41] @ asc '' e--f'') 5 = Some 13
   \<and> normalize_tex_like (asc ''a--b '' @ [92, 40] @ asc ''c--d'' @ [92, 41] @ asc '' e--f'')
       = asc ''a'' @ [8211] @ asc ''b '' @ [92, 40] @ asc ''c--d'' @ [92, 41] @ asc '' e''
         @ [8211] @ asc ''f''
   \<and> Protected ([92, 40] @ asc ''c--d'' @ [92, 41])
       \<in> set (spans (asc ''a--b '' @ [92, 40] @ asc ''c--d'' @ [92, 41] @ asc '' e--f''))
   \<and> protected_region ([92, 40] @ asc ''c--d'' @ [92, 41])"
proof -
  let ?s = "asc ''a--b '' @ [92, 40] @ asc ''c--d'' @ [92, 41] @ asc '' e--f''"
  have h: "5 < length ?s \<and> list_all (\<lambda>i. region_end ?s i = None) [0 ..< 5]
      \<and> region_end ?s 5 = Some 13"
    by (simp add: scan_eval upt_rec)
  have mem: "Protected ([92, 40] @ asc ''c--d'' @ [92, 41]) \<in> set (spans ?s)"
    by (simp add: normalizer_eval)
  note T = normalizer_protects_math [of ?s 5 13]
  from T have r: "\<forall>t. Protected t \<in> set (spans ?s) \<longrightarrow> protected_region t"
    by (elim conjE)
  from r mem have pr: "protected_region ([92, 40] @ asc ''c--d'' @ [92, 41])" by blast
  from T have "5 < length ?s \<and> list_all (\<lambda>i. region_end ?s i = None) [0 ..< 5]
      \<and> region_end ?s 5 = Some 13
      \<longrightarrow> normalize_tex_like ?s = apply_replacements tex_replacements (take 5 ?s) @ slice ?s 5 13
             @ normalize_tex_like (drop 13 ?s)"
    by (elim conjE)
  with h have e: "normalize_tex_like ?s = apply_replacements tex_replacements (take 5 ?s)
      @ slice ?s 5 13 @ normalize_tex_like (drop 13 ?s)" by (rule rev_mp)
  have "apply_replacements tex_replacements (take 5 ?s) @ slice ?s 5 13
      @ normalize_tex_like (drop 13 ?s)
      = asc ''a'' @ [8211] @ asc ''b '' @ [92, 40] @ asc ''c--d'' @ [92, 41] @ asc '' e''
         @ [8211] @ asc ''f''"
    by (simp add: normalizer_eval)
  with e have v: "normalize_tex_like ?s
      = asc ''a'' @ [8211] @ asc ''b '' @ [92, 40] @ asc ''c--d'' @ [92, 41] @ asc '' e''
         @ [8211] @ asc ''f''" by (rule trans)
  from h v mem pr show ?thesis by (intro conjI) (elim conjE, assumption)+
qed


subsection \<open>The rules, in the words of the specification\<close>

text \<open>
  A rule of the table replaces every occurrence of its pattern in the span, from the
  left, and goes on after the text it replaced. \<open>replace_all old new\<close> is that for a
  literal pattern, by the position of the first occurrence; \<open>replace_with_spaces\<close> also
  takes the whitespace that follows the literal, as the rule of \<open>\,\<close> does.
  \<open>spec_rules\<close> is the table: the twelve rules in its order, the first of them
  applied first (the composition reads from right to left).
\<close>

lemma first_at_Some:
  assumes "first_at sub s k = Some p" and "sub \<noteq> []"
  shows "p + length sub \<le> length s"
proof -
  from assms(1) have "occurs_at sub s p" by (auto simp: first_at_def find_Some_iff)
  from occurs_at_bound [OF this assms(2)] show ?thesis .
qed

function replace_all :: "ustr \<Rightarrow> ustr \<Rightarrow> ustr \<Rightarrow> ustr" where
  "replace_all old new s =
     (if old = [] then s
      else case first_at old s 0 of
             None \<Rightarrow> s
           | Some p \<Rightarrow> take p s @ new @ replace_all old new (drop (p + length old) s))"
  by pat_completeness auto
termination
proof (relation "measure (\<lambda>(old, new, s). length s)")
  show "wf (measure (\<lambda>(old, new, s). length s))" by simp
next
  fix old new s :: ustr and p :: nat
  assume a: "old \<noteq> []" "first_at old s 0 = Some p"
  from a(1) obtain x xs where "old = x # xs" by (cases old) auto
  with first_at_Some [OF a(2,1)] have "length (drop (p + length old) s) < length s" by auto
  then show "((old, new, drop (p + length old) s), (old, new, s))
      \<in> measure (\<lambda>(old, new, s). length s)" by simp
qed

function replace_with_spaces :: "ustr \<Rightarrow> ustr \<Rightarrow> ustr \<Rightarrow> ustr" where
  "replace_with_spaces old new s =
     (if old = [] then s
      else case first_at old s 0 of
             None \<Rightarrow> s
           | Some p \<Rightarrow>
               take p s @ new @
               replace_with_spaces old new (dropWhile is_space (drop (p + length old) s)))"
  by pat_completeness auto
termination
proof (relation "measure (\<lambda>(old, new, s). length s)")
  show "wf (measure (\<lambda>(old, new, s). length s))" by simp
next
  fix old new s :: ustr and p :: nat
  assume a: "old \<noteq> []" "first_at old s 0 = Some p"
  from a(1) obtain x xs where "old = x # xs" by (cases old) auto
  with first_at_Some [OF a(2,1)] have "length (drop (p + length old) s) < length s" by auto
  moreover have "length (dropWhile is_space (drop (p + length old) s))
      \<le> length (drop (p + length old) s)" by (rule length_dropWhile_le)
  ultimately have "length (dropWhile is_space (drop (p + length old) s)) < length s" by simp
  then show "((old, new, dropWhile is_space (drop (p + length old) s)), (old, new, s))
      \<in> measure (\<lambda>(old, new, s). length s)" by simp
qed

declare replace_all.simps [simp del] replace_with_spaces.simps [simp del]

definition spec_rules :: "ustr \<Rightarrow> ustr" where
  "spec_rules =
     replace_all [92, 38] [38] \<circ>
     replace_all [92, 47] [] \<circ>
     replace_all [92, 45] [] \<circ>
     replace_all [126] [160] \<circ>
     replace_all [92, 33] [] \<circ>
     replace_all [92, 58] [8197] \<circ>
     replace_all [92, 59] [8197] \<circ>
     replace_with_spaces [92, 44] [8201] \<circ>
     replace_all [39, 39] [8221] \<circ>
     replace_all [96, 96] [8220] \<circ>
     replace_all [45, 45] [8211] \<circ>
     replace_all [45, 45, 45] [8212]"

lemma first_at_0: "l \<noteq> [] \<Longrightarrow> first_at l s 0 = find_sub l s"
  using first_at_find_sub [of l s 0] by (simp add: option.map_ident)

lemma re_sub_Literal_step:
  "l \<noteq> [] \<Longrightarrow> find_sub l s = Some k \<Longrightarrow>
     re_sub (Literal l) r s = take k s @ r @ re_sub (Literal l) r (drop (k + length l) s)"
proof (induction s arbitrary: k)
  case Nil
  then show ?case by (simp split: if_splits)
next
  case (Cons c cs)
  show ?case
  proof (cases "prefix l (c # cs)")
    case True
    with Cons.prems have k: "k = 0" by simp
    from True Cons.prems(1) have "length (drop (length l) (c # cs)) < Suc (length cs)"
      by (cases l) simp_all
    with True k show ?thesis by simp
  next
    case False
    with Cons.prems obtain j where j: "find_sub l cs = Some j" "k = Suc j" by auto
    from Cons.IH [OF Cons.prems(1) j(1)] False j(2) show ?thesis by simp
  qed
qed

lemma re_sub_Spaces_step:
  "l \<noteq> [] \<Longrightarrow> find_sub l s = Some k \<Longrightarrow>
     re_sub (LiteralSpaces l) r s =
       take k s @ r @ re_sub (LiteralSpaces l) r (dropWhile is_space (drop (k + length l) s))"
proof (induction s arbitrary: k)
  case Nil
  then show ?case by (simp split: if_splits)
next
  case (Cons c cs)
  show ?case
  proof (cases "prefix l (c # cs)")
    case True
    with Cons.prems have k: "k = 0" by simp
    from True Cons.prems(1) have "length (drop (length l) (c # cs)) < Suc (length cs)"
      by (cases l) simp_all
    moreover have "length (dropWhile is_space (drop (length l) (c # cs)))
        \<le> length (drop (length l) (c # cs))" by (rule length_dropWhile_le)
    ultimately have "length (dropWhile is_space (drop (length l) (c # cs))) < Suc (length cs)"
      by simp
    with True k show ?thesis by simp
  next
    case False
    with Cons.prems obtain j where j: "find_sub l cs = Some j" "k = Suc j" by auto
    from Cons.IH [OF Cons.prems(1) j(1)] False j(2) show ?thesis by simp
  qed
qed

lemma re_sub_replace_all:
  assumes "l \<noteq> []"
  shows "re_sub (Literal l) r s = replace_all l r s"
proof (induction "length s" arbitrary: s rule: less_induct)
  case less
  show ?case
  proof (cases "find_sub l s")
    case None
    then have "re_sub (Literal l) r s = s" using re_sub_absent [of "Literal l" s r] by simp
    moreover from None assms have "replace_all l r s = s"
      by (simp add: replace_all.simps [of l r s] first_at_0)
    ultimately show ?thesis by simp
  next
    case (Some k)
    from find_sub_bound [OF Some] assms have "length (drop (k + length l) s) < length s"
      by (cases l) simp_all
    from less [OF this]
    have "re_sub (Literal l) r (drop (k + length l) s) = replace_all l r (drop (k + length l) s)" .
    with re_sub_Literal_step [OF assms Some, of r] Some assms show ?thesis
      by (simp add: replace_all.simps [of l r s] first_at_0)
  qed
qed

lemma re_sub_replace_with_spaces:
  assumes "l \<noteq> []"
  shows "re_sub (LiteralSpaces l) r s = replace_with_spaces l r s"
proof (induction "length s" arbitrary: s rule: less_induct)
  case less
  show ?case
  proof (cases "find_sub l s")
    case None
    then have "re_sub (LiteralSpaces l) r s = s"
      using re_sub_absent [of "LiteralSpaces l" s r] by simp
    moreover from None assms have "replace_with_spaces l r s = s"
      by (simp add: replace_with_spaces.simps [of l r s] first_at_0)
    ultimately show ?thesis by simp
  next
    case (Some k)
    from find_sub_bound [OF Some] assms have "length (drop (k + length l) s) < length s"
      by (cases l) simp_all
    moreover have "length (dropWhile is_space (drop (k + length l) s))
        \<le> length (drop (k + length l) s)" by (rule length_dropWhile_le)
    ultimately have "length (dropWhile is_space (drop (k + length l) s)) < length s" by simp
    from less [OF this]
    have "re_sub (LiteralSpaces l) r (dropWhile is_space (drop (k + length l) s))
        = replace_with_spaces l r (dropWhile is_space (drop (k + length l) s))" .
    with re_sub_Spaces_step [OF assms Some, of r] Some assms show ?thesis
      by (simp add: replace_with_spaces.simps [of l r s] first_at_0)
  qed
qed

lemma rules_spec_rules: "apply_replacements tex_replacements t = spec_rules t"
  by (simp add: tex_replacements_def spec_rules_def re_sub_replace_all re_sub_replace_with_spaces)

lemma render_spec:
  "render sp = (case sp of Protected t \<Rightarrow> t | Plain t \<Rightarrow> spec_rules t)"
  by (cases sp) (simp_all add: rules_spec_rules)


text \<open>
  Claim C2. Every plain span is rewritten by the twelve rules of the table in the listed
  order, each rule replacing every occurrence of its pattern in the whole span and
  working on the output of the rules before it; a string without a protected region is
  rewritten whole. In particular three hyphens become an em dash, because that rule
  runs before the rule of two hyphens; the example of the specification with the two
  kinds of quotes and the en dash is normalized as stated; two occurrences of a pattern
  are both rewritten; and the last part is a span with each of the twelve patterns
  twice, the second \<open>\,\<close> followed by a space, a tab and a no-break space.
\<close>

theorem rules_in_table_order:
  "normalize_tex_like s =
     concat (map (\<lambda>sp. case sp of Protected t \<Rightarrow> t | Plain t \<Rightarrow> spec_rules t) (spans s))
   \<and> (list_all (\<lambda>i. region_end s i = None) [0 ..< length s]
        \<longrightarrow> normalize_tex_like s = spec_rules s)
   \<and> normalize_tex_like [45, 45, 45] = [8212]
   \<and> normalize_tex_like (asc ''The '' @ [96, 96] @ asc ''smooth'' @ [39, 39] @ asc '' flow -- v2'')
       = asc ''The '' @ [8220] @ asc ''smooth'' @ [8221] @ asc '' flow '' @ [8211] @ asc '' v2''
   \<and> normalize_tex_like (asc ''a--b--c'') = asc ''a'' @ [8211] @ asc ''b'' @ [8211] @ asc ''c''
   \<and> normalize_tex_like (asc ''x~y '' @ [92, 38] @ asc '' z'') = asc ''x'' @ [160] @ asc ''y & z''
   \<and> normalize_tex_like
        (asc ''p---q---r--s--t'' @ [96, 96] @ asc ''u'' @ [96, 96] @ asc ''v'' @ [39, 39] @ asc ''w''
         @ [39, 39] @ asc ''x'' @ [92, 44] @ asc '' y'' @ [92, 44, 32, 9, 160] @ asc ''z''
         @ [92, 59] @ asc ''a'' @ [92, 59] @ asc ''b'' @ [92, 58] @ asc ''c'' @ [92, 58] @ asc ''d''
         @ [92, 33] @ asc ''e'' @ [92, 33] @ asc ''f~g~h'' @ [92, 45] @ asc ''i'' @ [92, 45]
         @ asc ''j'' @ [92, 47] @ asc ''k'' @ [92, 47] @ asc ''l'' @ [92, 38] @ asc ''m''
         @ [92, 38] @ asc ''n'')
       = asc ''p'' @ [8212] @ asc ''q'' @ [8212] @ asc ''r'' @ [8211] @ asc ''s'' @ [8211]
         @ asc ''t'' @ [8220] @ asc ''u'' @ [8220] @ asc ''v'' @ [8221] @ asc ''w'' @ [8221]
         @ asc ''x'' @ [8201] @ asc ''y'' @ [8201] @ asc ''z'' @ [8197] @ asc ''a'' @ [8197]
         @ asc ''b'' @ [8197] @ asc ''c'' @ [8197] @ asc ''def'' @ [160] @ asc ''g'' @ [160]
         @ asc ''hijkl&m&n''"
proof (intro conjI impI)
  have "map render (spans s)
      = map (\<lambda>sp. case sp of Protected t \<Rightarrow> t | Plain t \<Rightarrow> spec_rules t) (spans s)"
    by (rule map_cong [OF refl]) (rule render_spec)
  then show "normalize_tex_like s =
     concat (map (\<lambda>sp. case sp of Protected t \<Rightarrow> t | Plain t \<Rightarrow> spec_rules t) (spans s))"
    by (simp only: normalize_spans)
next
  assume "list_all (\<lambda>i. region_end s i = None) [0 ..< length s]"
  then have "normalize_tex_like s = apply_replacements tex_replacements s"
    by (rule normalize_no_region)
  then show "normalize_tex_like s = spec_rules s" by (simp only: rules_spec_rules)
qed (simp_all add: normalizer_eval)

theorem rules_in_table_order_witness:
  "list_all (\<lambda>i. region_end (asc ''a--b---c--d'') i = None) [0 ..< length (asc ''a--b---c--d'')]
   \<and> normalize_tex_like (asc ''a--b---c--d'') = spec_rules (asc ''a--b---c--d'')
   \<and> normalize_tex_like (asc ''a--b---c--d'')
       = asc ''a'' @ [8211] @ asc ''b'' @ [8212] @ asc ''c'' @ [8211] @ asc ''d''"
proof -
  have h: "list_all (\<lambda>i. region_end (asc ''a--b---c--d'') i = None)
      [0 ..< length (asc ''a--b---c--d'')]"
    by (simp add: scan_eval upt_rec)
  have imp: "list_all (\<lambda>i. region_end (asc ''a--b---c--d'') i = None)
        [0 ..< length (asc ''a--b---c--d'')]
      \<longrightarrow> normalize_tex_like (asc ''a--b---c--d'') = spec_rules (asc ''a--b---c--d'')"
    by (rule rules_in_table_order [of "asc ''a--b---c--d''", THEN conjunct2, THEN conjunct1])
  from imp h have e: "normalize_tex_like (asc ''a--b---c--d'') = spec_rules (asc ''a--b---c--d'')"
    by (rule mp)
  have v: "normalize_tex_like (asc ''a--b---c--d'')
       = asc ''a'' @ [8211] @ asc ''b'' @ [8212] @ asc ''c'' @ [8211] @ asc ''d''"
    by (simp add: normalizer_eval)
  from h e v show ?thesis by (intro conjI)
qed

subsection \<open>Openers without a closer, in a span\<close>

text \<open>
  \<open>opener_without_closer s i\<close>: at position \<open>i\<close> of \<open>s\<close> stands an opener \<open>\(\<close>, \<open>\[\<close> or
  \<open>$\<close> after which the pattern finds no closer for it.
\<close>

definition opener_without_closer :: "ustr \<Rightarrow> nat \<Rightarrow> bool" where
  "opener_without_closer s i \<longleftrightarrow>
     prefix [92, 40] (drop i s) \<and> find_sub [92, 41] (drop (i + 3) s) = None
     \<or> prefix [92, 91] (drop i s) \<and> find_sub [92, 93] (drop (i + 3) s) = None
     \<or> prefix [36] (drop i s) \<and> find_sub [36] (drop (i + 1) s) = None"

lemma slice_append: "a \<le> b \<Longrightarrow> b \<le> c \<Longrightarrow> slice s a b @ slice s b c = slice s a c"
proof -
  assume a: "a \<le> b" "b \<le> c"
  have "take (b - a) (drop a s) @ take (c - b) (drop (b - a) (drop a s)) = take (c - a) (drop a s)"
    using a by (metis take_add le_add_diff_inverse diff_add_assoc2 add.commute diff_diff_cancel diff_le_self Nat.add_diff_assoc2 le_trans ordered_cancel_comm_monoid_diff_class.add_diff_inverse)
  then show ?thesis using a by (simp add: slice_def)
qed

lemma spans_from_protected_at:
  "ordered_from (length s) pos ms \<Longrightarrow> (st, en) \<in> set ms \<Longrightarrow>
     \<exists>xs ys. spans_from s ms pos = xs @ Protected (slice s st en) # ys
        \<and> concat (map span_text xs) = slice s pos st \<and> pos \<le> st"
proof (induction ms arbitrary: pos)
  case Nil
  then show ?case by simp
next
  case (Cons m ms)
  obtain a b where m: "m = (a, b)" by (cases m)
  from Cons.prems(1) m have o: "pos \<le> a" "a < b" "b \<le> length s" "ordered_from (length s) b ms"
    by simp_all
  let ?pre = "if pos < a then [Plain (slice s pos a)] else []"
  have pre: "concat (map span_text ?pre) = slice s pos a" using o(1) by (simp add: slice_def)
  show ?case
  proof (cases "(st, en) = (a, b)")
    case True
    with m have "spans_from s (m # ms) pos = ?pre @ Protected (slice s st en) # spans_from s ms b"
      by simp
    with pre True o(1) show ?thesis by blast
  next
    case False
    with Cons.prems(2) m have "(st, en) \<in> set ms" by auto
    from Cons.IH [OF o(4) this] obtain xs ys
      where x: "spans_from s ms b = xs @ Protected (slice s st en) # ys"
        "concat (map span_text xs) = slice s b st" "b \<le> st" by blast
    from m x(1) have "spans_from s (m # ms) pos
        = (?pre @ Protected (slice s a b) # xs) @ Protected (slice s st en) # ys" by simp
    moreover have "concat (map span_text (?pre @ Protected (slice s a b) # xs)) = slice s pos st"
      using pre x(2) o(1,2) x(3) by (simp add: slice_append)
    moreover have "pos \<le> st" using o(1,2) x(3) by simp
    ultimately show ?thesis by blast
  qed
qed

lemma spans_from_plain_at:
  "ordered_from (length s) pos ms \<Longrightarrow> pos \<le> i \<Longrightarrow> i < length s \<Longrightarrow>
   \<forall>(st, en) \<in> set ms. \<not> (st \<le> i \<and> i < en) \<Longrightarrow>
     \<exists>a b xs ys. spans_from s ms pos = xs @ Plain (slice s a b) # ys
        \<and> concat (map span_text xs) = slice s pos a \<and> pos \<le> a \<and> a \<le> i \<and> i < b
        \<and> (b = length s \<or> b \<in> fst ` set ms)"
proof (induction ms arbitrary: pos)
  case Nil
  then have "spans_from s [] pos = [] @ Plain (slice s pos (length s)) # []"
    by (simp add: slice_def)
  moreover have "concat (map span_text []) = slice s pos pos" by (simp add: slice_def)
  ultimately show ?case using Nil.prems by blast
next
  case (Cons m ms)
  obtain st en where m: "m = (st, en)" by (cases m)
  from Cons.prems(1) m have o: "pos \<le> st" "st < en" "en \<le> length s" "ordered_from (length s) en ms"
    by simp_all
  from Cons.prems(4) m have out: "\<not> (st \<le> i \<and> i < en)"
    and rest: "\<forall>(st, en) \<in> set ms. \<not> (st \<le> i \<and> i < en)" by simp_all
  show ?case
  proof (cases "i < st")
    case True
    with Cons.prems(2) have "pos < st" by simp
    with m have "spans_from s (m # ms) pos
        = [] @ Plain (slice s pos st) # (Protected (slice s st en) # spans_from s ms en)" by simp
    moreover have "concat (map span_text []) = slice s pos pos" by (simp add: slice_def)
    moreover have "st \<in> fst ` set (m # ms)" using m by force
    ultimately show ?thesis using True Cons.prems(2) by blast
  next
    case False
    with out have ge: "en \<le> i" by simp
    from Cons.IH [OF o(4) ge Cons.prems(3) rest] obtain a b xs ys
      where x: "spans_from s ms en = xs @ Plain (slice s a b) # ys"
        "concat (map span_text xs) = slice s en a" "en \<le> a" "a \<le> i" "i < b"
        "b = length s \<or> b \<in> fst ` set ms" by blast
    let ?pre = "if pos < st then [Plain (slice s pos st)] else []"
    have pre: "concat (map span_text ?pre) = slice s pos st" using o(1) by (simp add: slice_def)
    from m x(1) have "spans_from s (m # ms) pos
        = (?pre @ Protected (slice s st en) # xs) @ Plain (slice s a b) # ys" by simp
    moreover have "concat (map span_text (?pre @ Protected (slice s st en) # xs)) = slice s pos a"
      using pre x(2,3) o(1,2) by (simp add: slice_append)
    moreover have "pos \<le> a" using o(1,2) x(3) by simp
    moreover have "b = length s \<or> b \<in> fst ` set (m # ms)" using x(6) by auto
    ultimately show ?thesis using x(4,5) by blast
  qed
qed

lemma opener_without_closer_no_match:
  "opener_without_closer s i \<Longrightarrow> alt_match MATH_RE (drop i s) = None \<and> i < length s"
proof -
  assume a: "opener_without_closer s i"
  have l: "i < length s" using a by (auto simp: opener_without_closer_def prefix_def) (metis drop_eq_Nil list.discI not_le_imp_less)+
  from a have "alt_match MATH_RE (drop i s) = None"
    unfolding opener_without_closer_def
    using unterminated_backslash_opener [of 40 i s "[92, 41]"]
      unterminated_backslash_opener [of 91 i s "[92, 93]"]
      unterminated_dollar_opener [of i s]
    by auto
  with l show ?thesis by simp
qed

lemma region_copied:
  assumes "(st, en) \<in> set (finditer s)"
  shows "\<exists>xs ys. spans s = xs @ Protected (slice s st en) # ys
     \<and> concat (map span_text xs) = take st s
     \<and> normalize_tex_like s = concat (map render xs) @ slice s st en @ concat (map render ys)"
proof -
  from assms have "(st, en) \<in> set (finditer_from s 0)" by (simp add: finditer_def)
  from spans_from_protected_at [OF finditer_from_ordered this]
  obtain xs ys where "spans_from s (finditer_from s 0) 0 = xs @ Protected (slice s st en) # ys"
    "concat (map span_text xs) = slice s 0 st"
    by blast
  then have x: "spans s = xs @ Protected (slice s st en) # ys"
    "concat (map span_text xs) = slice s 0 st"
    by (simp_all add: spans_def finditer_def)
  from x(1) have "normalize_tex_like s = concat (map render xs) @ slice s st en @ concat (map render ys)"
    by (simp add: normalize_spans)
  with x show ?thesis by (auto simp: slice_def)
qed

lemma opener_in_plain_span:
  assumes h: "opener_without_closer s i"
    and out: "\<forall>(st, en) \<in> set (finditer s). \<not> (st < i \<and> i < en)"
  shows "\<exists>a b xs ys. spans s = xs @ Plain (slice s a b) # ys
     \<and> concat (map span_text xs) = take a s \<and> a \<le> i \<and> i < b
     \<and> (b = length s \<or> b \<in> fst ` set (finditer s))
     \<and> normalize_tex_like s =
         concat (map render xs) @ apply_replacements tex_replacements (slice s a b)
         @ concat (map render ys)"
proof -
  from opener_without_closer_no_match [OF h]
  have nm: "alt_match MATH_RE (drop i s) = None" and l: "i < length s" by simp_all
  from no_match_no_region [OF nm] have ns: "i \<notin> fst ` set (finditer s)" .
  have "\<forall>(st, en) \<in> set (finditer_from s 0). \<not> (st \<le> i \<and> i < en)"
  proof (intro ballI, clarify)
    fix st en assume m: "(st, en) \<in> set (finditer_from s 0)" and c: "st \<le> i" "i < en"
    from m ns have "st \<noteq> i" by (force simp: finditer_def)
    with c(1) have "st < i" by simp
    with out m c(2) show False by (auto simp: finditer_def)
  qed
  from spans_from_plain_at [OF finditer_from_ordered [of s 0] le0 l this]
  obtain a b xs ys where "spans_from s (finditer_from s 0) 0 = xs @ Plain (slice s a b) # ys"
    "concat (map span_text xs) = slice s 0 a" "a \<le> i" "i < b"
    "b = length s \<or> b \<in> fst ` set (finditer_from s 0)"
    by blast
  then have x: "spans s = xs @ Plain (slice s a b) # ys"
    "concat (map span_text xs) = slice s 0 a" "a \<le> i" "i < b"
    "b = length s \<or> b \<in> fst ` set (finditer s)"
    by (simp_all add: spans_def finditer_def)
  from x(1) have n: "normalize_tex_like s =
         concat (map render xs) @ apply_replacements tex_replacements (slice s a b)
         @ concat (map render ys)"
    by (simp add: normalize_spans)
  from x(2) have t: "concat (map span_text xs) = take a s" by (simp add: slice_def)
  from x(1) t x(3,4,5) n show ?thesis by blast
qed

text \<open>
  Claim C7, as amended. An opener \<open>\(\<close>, \<open>\[\<close> or \<open>$\<close> at a position after which the
  pattern finds no closer for it never starts a protected region. An opener \<open>$$\<close> with
  no later \<open>$$\<close> can start a region, but only the two characters \<open>$$\<close> themselves,
  matched by the branch for \<open>$...$\<close> with an empty body. When the string has no
  closing delimiter at all (no \<open>\)\<close>, no \<open>\]\<close> and at most one \<open>$\<close>) it has no protected
  region and the whole string is rewritten by the rules as one plain span. An opener
  without a closer that lies inside a protected region lies after the start of that
  region and is copied with it, as it is, at its place in the output. An opener without
  a closer that lies inside no protected region lies in a plain span, which reaches
  from the end of the region before it (or the start of the string) to the next region
  (or the end of the string) and is rewritten by the rules at its place in the output.
  The normalizer is a total function: it returns a string for every input.
\<close>

theorem unterminated_opener:
  "(prefix [92, 40] (drop i s) \<and> find_sub [92, 41] (drop (i + 3) s) = None
      \<longrightarrow> i \<notin> fst ` set (finditer s))
   \<and> (prefix [92, 91] (drop i s) \<and> find_sub [92, 93] (drop (i + 3) s) = None
      \<longrightarrow> i \<notin> fst ` set (finditer s))
   \<and> (prefix [36] (drop i s) \<and> find_sub [36] (drop (i + 1) s) = None
      \<longrightarrow> i \<notin> fst ` set (finditer s))
   \<and> (prefix [36, 36] (drop i s) \<and> find_sub [36, 36] (drop (i + 2) s) = None
      \<longrightarrow> (\<forall>en. (i, en) \<in> set (finditer s) \<longrightarrow> en = i + 2))
   \<and> (find_sub [92, 41] s = None \<and> find_sub [92, 93] s = None \<and> count_list s 36 \<le> 1
      \<longrightarrow> finditer s = [] \<and> normalize_tex_like s = apply_replacements tex_replacements s)
   \<and> (opener_without_closer s i \<and> (st, en) \<in> set (finditer s) \<and> st \<le> i \<and> i < en
      \<longrightarrow> st < i \<and>
          (\<exists>xs ys. spans s = xs @ Protected (slice s st en) # ys
             \<and> concat (map span_text xs) = take st s
             \<and> normalize_tex_like s =
                 concat (map render xs) @ slice s st en @ concat (map render ys)))
   \<and> (opener_without_closer s i \<and> list_all (\<lambda>(st, en). \<not> (st < i \<and> i < en)) (finditer s)
      \<longrightarrow> (\<exists>a b xs ys. spans s = xs @ Plain (slice s a b) # ys
             \<and> concat (map span_text xs) = take a s \<and> a \<le> i \<and> i < b
             \<and> (b = length s \<or> b \<in> fst ` set (finditer s))
             \<and> normalize_tex_like s =
                 concat (map render xs) @ apply_replacements tex_replacements (slice s a b)
                 @ concat (map render ys)))"
proof -
  note old = unterminated_opener_scan [of i s]
  have c6: "st < i \<and>
          (\<exists>xs ys. spans s = xs @ Protected (slice s st en) # ys
             \<and> concat (map span_text xs) = take st s
             \<and> normalize_tex_like s =
                 concat (map render xs) @ slice s st en @ concat (map render ys))"
    if a: "opener_without_closer s i \<and> (st, en) \<in> set (finditer s) \<and> st \<le> i \<and> i < en"
  proof -
    from a opener_without_closer_no_match [of s i]
    have "alt_match MATH_RE (drop i s) = None" by simp
    from no_match_no_region [OF this] a have "st \<noteq> i" by force
    with a have "st < i" by simp
    moreover from a region_copied [of st en s]
    have "\<exists>xs ys. spans s = xs @ Protected (slice s st en) # ys
             \<and> concat (map span_text xs) = take st s
             \<and> normalize_tex_like s =
                 concat (map render xs) @ slice s st en @ concat (map render ys)" by simp
    ultimately show ?thesis by (rule conjI)
  qed
  have c7: "\<exists>a b xs ys. spans s = xs @ Plain (slice s a b) # ys
             \<and> concat (map span_text xs) = take a s \<and> a \<le> i \<and> i < b
             \<and> (b = length s \<or> b \<in> fst ` set (finditer s))
             \<and> normalize_tex_like s =
                 concat (map render xs) @ apply_replacements tex_replacements (slice s a b)
                 @ concat (map render ys)"
    if a: "opener_without_closer s i \<and> list_all (\<lambda>(st, en). \<not> (st < i \<and> i < en)) (finditer s)"
  proof -
    from a have "\<forall>(st, en) \<in> set (finditer s). \<not> (st < i \<and> i < en)"
      by (simp add: list_all_iff)
    with a show ?thesis by (intro opener_in_plain_span) simp_all
  qed
  show ?thesis
  proof (intro conjI)
    from old show "prefix [92, 40] (drop i s) \<and> find_sub [92, 41] (drop (i + 3) s) = None
      \<longrightarrow> i \<notin> fst ` set (finditer s)" by (elim conjE)
    from old show "prefix [92, 91] (drop i s) \<and> find_sub [92, 93] (drop (i + 3) s) = None
      \<longrightarrow> i \<notin> fst ` set (finditer s)" by (elim conjE)
    from old show "prefix [36] (drop i s) \<and> find_sub [36] (drop (i + 1) s) = None
      \<longrightarrow> i \<notin> fst ` set (finditer s)" by (elim conjE)
    from old show "prefix [36, 36] (drop i s) \<and> find_sub [36, 36] (drop (i + 2) s) = None
      \<longrightarrow> (\<forall>en. (i, en) \<in> set (finditer s) \<longrightarrow> en = i + 2)" by (elim conjE)
    from old show "find_sub [92, 41] s = None \<and> find_sub [92, 93] s = None \<and> count_list s 36 \<le> 1
      \<longrightarrow> finditer s = [] \<and> normalize_tex_like s = apply_replacements tex_replacements s"
      by (elim conjE)
    show "opener_without_closer s i \<and> (st, en) \<in> set (finditer s) \<and> st \<le> i \<and> i < en
      \<longrightarrow> st < i \<and>
          (\<exists>xs ys. spans s = xs @ Protected (slice s st en) # ys
             \<and> concat (map span_text xs) = take st s
             \<and> normalize_tex_like s =
                 concat (map render xs) @ slice s st en @ concat (map render ys))"
      by (rule impI) (rule c6)
    show "opener_without_closer s i \<and> list_all (\<lambda>(st, en). \<not> (st < i \<and> i < en)) (finditer s)
      \<longrightarrow> (\<exists>a b xs ys. spans s = xs @ Plain (slice s a b) # ys
             \<and> concat (map span_text xs) = take a s \<and> a \<le> i \<and> i < b
             \<and> (b = length s \<or> b \<in> fst ` set (finditer s))
             \<and> normalize_tex_like s =
                 concat (map render xs) @ apply_replacements tex_replacements (slice s a b)
                 @ concat (map render ys))"
      by (rule impI) (rule c7)
  qed
qed

theorem unterminated_opener_witness:
  "prefix [92, 40] (drop 0 ([92, 40] @ asc '' a--b''))
   \<and> find_sub [92, 41] (drop (0 + 3) ([92, 40] @ asc '' a--b'')) = None
   \<and> 0 \<notin> fst ` set (finditer ([92, 40] @ asc '' a--b''))
   \<and> count_list ([92, 40] @ asc '' a--b'') 36 \<le> 1
   \<and> normalize_tex_like ([92, 40] @ asc '' a--b'') = [92, 40] @ asc '' a'' @ [8211] @ asc ''b''
   \<and> prefix [36] (drop 5 (asc ''cost $5 -- ok''))
   \<and> 5 \<notin> fst ` set (finditer (asc ''cost $5 -- ok''))
   \<and> prefix [36, 36] (drop 0 (asc ''$$x$''))
   \<and> (0, 2) \<in> set (finditer (asc ''$$x$''))
   \<and> opener_without_closer (asc ''$x$ '' @ [92, 40] @ asc '' a--b'') 4
   \<and> finditer (asc ''$x$ '' @ [92, 40] @ asc '' a--b'') = [(0, 3)]
   \<and> (\<exists>a b xs ys.
         spans (asc ''$x$ '' @ [92, 40] @ asc '' a--b'') =
           xs @ Plain (slice (asc ''$x$ '' @ [92, 40] @ asc '' a--b'') a b) # ys
         \<and> a \<le> 4 \<and> 4 < b
         \<and> normalize_tex_like (asc ''$x$ '' @ [92, 40] @ asc '' a--b'') =
             concat (map render xs)
             @ apply_replacements tex_replacements
                 (slice (asc ''$x$ '' @ [92, 40] @ asc '' a--b'') a b)
             @ concat (map render ys))
   \<and> normalize_tex_like (asc ''$x$ '' @ [92, 40] @ asc '' a--b'')
       = asc ''$x$ '' @ [92, 40] @ asc '' a'' @ [8211] @ asc ''b''
   \<and> opener_without_closer [36, 92, 40, 92, 45, 36] 1
   \<and> (\<exists>xs ys. normalize_tex_like [36, 92, 40, 92, 45, 36] =
         concat (map render xs) @ slice [36, 92, 40, 92, 45, 36] 0 6 @ concat (map render ys))"
proof -
  let ?s1 = "[92, 40] @ asc '' a--b''"
  let ?s3 = "asc ''$x$ '' @ [92, 40] @ asc '' a--b''"
  let ?s4 = "[36, 92, 40, 92, 45, 36 :: nat]"
  have h1: "prefix [92, 40] (drop 0 ?s1) \<and> find_sub [92, 41] (drop (0 + 3) ?s1) = None"
    by (simp add: asc_def)
  have h5: "find_sub [92, 41] ?s1 = None \<and> find_sub [92, 93] ?s1 = None \<and> count_list ?s1 36 \<le> 1"
    by (simp add: asc_def)
  have v: "apply_replacements tex_replacements ?s1 = [92, 40] @ asc '' a'' @ [8211] @ asc ''b''"
    by (simp add: normalizer_eval)
  have h3: "prefix [36] (drop 5 (asc ''cost $5 -- ok''))
      \<and> find_sub [36] (drop (5 + 1) (asc ''cost $5 -- ok'')) = None"
    by (simp add: asc_def)
  have h4: "prefix [36, 36] (drop 0 (asc ''$$x$''))
      \<and> find_sub [36, 36] (drop (0 + 2) (asc ''$$x$'')) = None"
    by (simp add: asc_def)
  have m4: "(0, 2) \<in> set (finditer (asc ''$$x$''))"
    by (simp add: normalizer_eval)
  have h7: "opener_without_closer ?s3 4" by (simp add: opener_without_closer_def asc_def)
  have f7: "finditer ?s3 = [(0, 3)]" by (simp add: normalizer_eval)
  have v7: "normalize_tex_like ?s3 = asc ''$x$ '' @ [92, 40] @ asc '' a'' @ [8211] @ asc ''b''"
    by (simp add: normalizer_eval)
  have h6: "opener_without_closer ?s4 1" by (simp add: opener_without_closer_def)
  have f6: "finditer ?s4 = [(0, 6)]" by (simp add: normalizer_eval)
  note T1 = unterminated_opener [of 0 ?s1 0 0]
  from T1 have "prefix [92, 40] (drop 0 ?s1) \<and> find_sub [92, 41] (drop (0 + 3) ?s1) = None
      \<longrightarrow> 0 \<notin> fst ` set (finditer ?s1)" by (elim conjE)
  with h1 have c1: "0 \<notin> fst ` set (finditer ?s1)" by (rule rev_mp)
  from T1 have "find_sub [92, 41] ?s1 = None \<and> find_sub [92, 93] ?s1 = None \<and> count_list ?s1 36 \<le> 1
      \<longrightarrow> finditer ?s1 = [] \<and> normalize_tex_like ?s1 = apply_replacements tex_replacements ?s1"
    by (elim conjE)
  with h5 have "finditer ?s1 = [] \<and> normalize_tex_like ?s1 = apply_replacements tex_replacements ?s1"
    by (rule rev_mp)
  with v have c5: "normalize_tex_like ?s1 = [92, 40] @ asc '' a'' @ [8211] @ asc ''b''" by simp
  from unterminated_opener [of 5 "asc ''cost $5 -- ok''" 0 0]
  have "prefix [36] (drop 5 (asc ''cost $5 -- ok''))
      \<and> find_sub [36] (drop (5 + 1) (asc ''cost $5 -- ok'')) = None
      \<longrightarrow> 5 \<notin> fst ` set (finditer (asc ''cost $5 -- ok''))" by (elim conjE)
  with h3 have c3: "5 \<notin> fst ` set (finditer (asc ''cost $5 -- ok''))" by (rule rev_mp)
  from unterminated_opener [of 4 ?s3 0 0]
  have "opener_without_closer ?s3 4 \<and> list_all (\<lambda>(st, en). \<not> (st < 4 \<and> 4 < en)) (finditer ?s3)
      \<longrightarrow> (\<exists>a b xs ys. spans ?s3 = xs @ Plain (slice ?s3 a b) # ys
             \<and> concat (map span_text xs) = take a ?s3 \<and> a \<le> 4 \<and> 4 < b
             \<and> (b = length ?s3 \<or> b \<in> fst ` set (finditer ?s3))
             \<and> normalize_tex_like ?s3 =
                 concat (map render xs) @ apply_replacements tex_replacements (slice ?s3 a b)
                 @ concat (map render ys))" by (elim conjE)
  moreover have "opener_without_closer ?s3 4
      \<and> list_all (\<lambda>(st, en). \<not> (st < 4 \<and> 4 < en)) (finditer ?s3)"
  proof
    show "opener_without_closer ?s3 4" by (rule h7)
    show "list_all (\<lambda>(st, en). \<not> (st < 4 \<and> 4 < en)) (finditer ?s3)"
      unfolding f7 by simp
  qed
  ultimately have "\<exists>a b xs ys. spans ?s3 = xs @ Plain (slice ?s3 a b) # ys
             \<and> concat (map span_text xs) = take a ?s3 \<and> a \<le> 4 \<and> 4 < b
             \<and> (b = length ?s3 \<or> b \<in> fst ` set (finditer ?s3))
             \<and> normalize_tex_like ?s3 =
                 concat (map render xs) @ apply_replacements tex_replacements (slice ?s3 a b)
                 @ concat (map render ys)" by (rule mp)
  then have c7: "\<exists>a b xs ys. spans ?s3 = xs @ Plain (slice ?s3 a b) # ys \<and> a \<le> 4 \<and> 4 < b
         \<and> normalize_tex_like ?s3 =
             concat (map render xs) @ apply_replacements tex_replacements (slice ?s3 a b)
             @ concat (map render ys)" by blast
  from unterminated_opener [of 1 ?s4 0 6]
  have "opener_without_closer ?s4 1 \<and> (0, 6) \<in> set (finditer ?s4) \<and> 0 \<le> (1::nat) \<and> (1::nat) < 6
      \<longrightarrow> 0 < (1::nat) \<and>
          (\<exists>xs ys. spans ?s4 = xs @ Protected (slice ?s4 0 6) # ys
             \<and> concat (map span_text xs) = take 0 ?s4
             \<and> normalize_tex_like ?s4 =
                 concat (map render xs) @ slice ?s4 0 6 @ concat (map render ys))" by (elim conjE)
  moreover have "opener_without_closer ?s4 1 \<and> (0, 6) \<in> set (finditer ?s4) \<and> 0 \<le> (1::nat)
      \<and> (1::nat) < 6"
  proof (intro conjI)
    show "opener_without_closer ?s4 1" by (rule h6)
    show "(0, 6) \<in> set (finditer ?s4)" unfolding f6 by simp
  qed simp_all
  ultimately have "0 < (1::nat) \<and>
          (\<exists>xs ys. spans ?s4 = xs @ Protected (slice ?s4 0 6) # ys
             \<and> concat (map span_text xs) = take 0 ?s4
             \<and> normalize_tex_like ?s4 =
                 concat (map render xs) @ slice ?s4 0 6 @ concat (map render ys))" by (rule mp)
  then have c6: "\<exists>xs ys. normalize_tex_like ?s4 =
         concat (map render xs) @ slice ?s4 0 6 @ concat (map render ys)" by blast
  from h1 c1 h5 c5 h3 c3 h4 m4 h7 f7 c7 v7 h6 c6 show ?thesis
    by (intro conjI) (elim conjE, assumption)+
qed

text \<open>
  The claim as it was stated fails where the opener lies inside a protected region that
  starts before it: in \<open>$\(\-$\<close> the opener \<open>\(\<close> at position 1 has no closer, yet it
  and the text after it are inside the region \<open>$...$\<close> and copied as they are, although
  the rules would delete the \<open>\-\<close>. It also fails for \<open>$$\<close>, which has no closing \<open>$$\<close>
  and is a protected region.
\<close>

theorem unterminated_opener_counterexample:
  "prefix [92, 40] (drop 1 [36, 92, 40, 92, 45, 36])
   \<and> find_sub [92, 41] (drop 1 [36, 92, 40, 92, 45, 36]) = None
   \<and> finditer [36, 92, 40, 92, 45, 36] = [(0, 6)]
   \<and> normalize_tex_like [36, 92, 40, 92, 45, 36] = [36, 92, 40, 92, 45, 36]
   \<and> apply_replacements tex_replacements (drop 1 [36, 92, 40, 92, 45, 36]) = [92, 40, 36]
   \<and> find_sub [36, 36] (drop 2 [36, 36]) = None
   \<and> finditer [36, 36] = [(0, 2)]"
  by (simp add: normalizer_eval)

section \<open>Properties of the parser\<close>

subsection \<open>The identifier grammar and the loop\<close>

text \<open>
  \<open>arxiv_id\<close> is the grammar of the specification for a whole identifier: four
  digits, a dot, five digits, then nothing or a \<open>v\<close> with at least one digit.
  \<open>head_id\<close> is the identifier that a head block yields, if any, and \<open>subjects_text\<close>
  the flattened text of the subjects element of a body block.
\<close>

definition arxiv_id :: "(nat \<Rightarrow> bool) \<Rightarrow> ustr \<Rightarrow> bool" where
  "arxiv_id dec x \<longleftrightarrow>
     10 \<le> length x \<and> list_all dec (take 4 x) \<and> x ! 4 = 46 \<and> list_all dec (take 5 (drop 5 x)) \<and>
     (case drop 10 x of
        [] \<Rightarrow> True
      | v # ds \<Rightarrow> v = 118 \<and> ds \<noteq> [] \<and> list_all dec ds)"

definition head_id :: "(nat \<Rightarrow> bool) \<Rightarrow> dt_block \<Rightarrow> ustr option" where
  "head_id dec dt =
     (case select_one_abs (anchors dt) of
        None \<Rightarrow> None
      | Some href \<Rightarrow> re_search_abs dec href)"

definition subjects_text :: "dd_block \<Rightarrow> ustr" where
  "subjects_text dd =
     (case list_subjects dd of
        Some subj_el \<Rightarrow> get_text [32] subj_el
      | None \<Rightarrow> [])"

lemma parse_loop_map_filter:
  "parse_loop dec ps acc = acc @ List.map_filter (\<lambda>(dt, dd). loop_body dec dt dd) ps"
  by (induction ps arbitrary: acc) (auto simp: List.map_filter_simps split: option.splits)

lemma parse_list_map_filter:
  "parse_list dec dts dds = List.map_filter (\<lambda>(dt, dd). loop_body dec dt dd) (zip dts dds)"
  by (simp add: parse_list_def parse_loop_map_filter)

lemma set_map_filter: "y \<in> set (List.map_filter f xs) \<longleftrightarrow> (\<exists>x \<in> set xs. f x = Some y)"
  by (induction xs) (auto simp: List.map_filter_simps split: option.splits)

lemma parse_list_mem:
  "e \<in> set (parse_list dec dts dds) \<longleftrightarrow>
     (\<exists>p \<in> set (zip dts dds). loop_body dec (fst p) (snd p) = Some e)"
  by (simp add: parse_list_map_filter set_map_filter case_prod_beta)

lemma loop_body_Some:
  assumes "loop_body dec dt dd = Some e"
  shows "\<exists>href. select_one_abs (anchors dt) = Some href \<and> re_search_abs dec href = Some (id' e)
           \<and> abs_url e = BASE @ href"
    and "codes e = set (findall_codes (subjects_text dd))"
  using assms
  by (auto simp: loop_body_def subjects_text_def Let_def split: option.splits)

lemma loop_body_id: "map_option id' (loop_body dec dt dd) = head_id dec dt"
  by (simp add: loop_body_def head_id_def Let_def split: option.splits)

lemma select_one_abs_Some:
  "select_one_abs hs = Some h \<Longrightarrow> Some h \<in> set hs \<and> prefix (asc ''/abs/'') h"
  by (induction hs rule: select_one_abs.induct) (auto split: if_splits)

lemma id_match_arxiv:
  assumes "id_match dec s = Some x"
  shows "arxiv_id dec x \<and> prefix x s"
proof -
  from assms have c: "10 \<le> length s" "list_all dec (take 4 s)" "s ! 4 = 46"
    "list_all dec (take 5 (drop 5 s))"
    and x: "x = take 10 s @ (if prefix [118] (drop 10 s) \<and> takeWhile dec (drop 1 (drop 10 s)) \<noteq> []
                then 118 # takeWhile dec (drop 1 (drop 10 s)) else [])"
    by (auto simp: id_match_def Let_def split: if_splits)
  define suf where "suf = (if prefix [118] (drop 10 s) \<and> takeWhile dec (drop 1 (drop 10 s)) \<noteq> []
                then 118 # takeWhile dec (drop 1 (drop 10 s)) else [])"
  have x': "x = take 10 s @ suf" using x suf_def by simp
  have l: "length (take 10 s) = 10" using c(1) by simp
  have t4: "take 4 x = take 4 s" using x' l by simp
  have n4: "x ! 4 = s ! 4" using x' l by (simp add: nth_append)
  have t5: "take 5 (drop 5 x) = take 5 (drop 5 s)" using x' l c(1) by (simp add: drop_take)
  have d10: "drop 10 x = suf" using x' l by simp
  have sufok: "(case suf of [] \<Rightarrow> True | v # ds \<Rightarrow> v = 118 \<and> ds \<noteq> [] \<and> list_all dec ds)"
    unfolding suf_def by (simp add: list_all_iff) (meson set_takeWhileD)
  have "prefix suf (drop 10 s)"
  proof (cases "prefix [118] (drop 10 s) \<and> takeWhile dec (drop 1 (drop 10 s)) \<noteq> []")
    case True
    then obtain r where r: "drop 10 s = 118 # r" by (auto simp: prefix_def)
    with True have "suf = 118 # takeWhile dec r" by (simp add: suf_def)
    moreover have "prefix (takeWhile dec r) r" by (rule takeWhile_is_prefix)
    ultimately show ?thesis using r by simp
  next
    case False
    then show ?thesis by (auto simp: suf_def)
  qed
  then obtain r where "drop 10 s = suf @ r" by (auto simp: prefix_def)
  then have "s = (take 10 s @ suf) @ r" by (metis append_take_drop_id append.assoc)
  then have "prefix x s" using x' by (metis prefixI)
  moreover have "arxiv_id dec x"
    unfolding arxiv_id_def using c l x' t4 n4 t5 d10 sufok by simp
  ultimately show ?thesis by simp
qed

lemma arxiv_id_nonempty: "arxiv_id dec x \<Longrightarrow> x \<noteq> []"
  by (auto simp: arxiv_id_def)

lemma re_search_abs_Some:
  "re_search_abs dec h = Some x \<Longrightarrow>
     arxiv_id dec x \<and> (\<exists>pre post. h = pre @ asc ''/abs/'' @ x @ post)"
proof (induction h)
  case Nil
  then show ?case by simp
next
  case (Cons c cs)
  show ?case
  proof (cases "prefix (asc ''/abs/'') (c # cs) \<and> id_match dec (drop 5 (c # cs)) \<noteq> None")
    case True
    with Cons.prems have m: "id_match dec (drop 5 (c # cs)) = Some x"
      by (auto split: option.splits)
    have "length (asc ''/abs/'') = 5" by (simp add: asc_def)
    moreover from True obtain r where "c # cs = asc ''/abs/'' @ r" by (auto simp: prefix_def)
    ultimately have "c # cs = asc ''/abs/'' @ drop 5 (c # cs)"
      by (metis append_eq_conv_conj)
    moreover from id_match_arxiv [OF m] obtain post where "drop 5 (c # cs) = x @ post"
      unfolding prefix_def by blast
    ultimately have "c # cs = [] @ asc ''/abs/'' @ x @ post" by (simp del: drop_Cons_numeral)
    with id_match_arxiv [OF m] show ?thesis by blast
  next
    case False
    with Cons.prems have "re_search_abs dec cs = Some x" by (auto split: option.splits if_splits)
    from Cons.IH [OF this] obtain pre post where "arxiv_id dec x" "cs = pre @ asc ''/abs/'' @ x @ post"
      by blast
    then have "c # cs = (c # pre) @ asc ''/abs/'' @ x @ post" by simp
    with \<open>arxiv_id dec x\<close> show ?thesis by blast
  qed
qed

lemma id_match_exact:
  assumes "arxiv_id dec x"
  shows "id_match dec x = Some x"
proof -
  from assms have c: "10 \<le> length x" "list_all dec (take 4 x)" "x ! 4 = 46"
    "list_all dec (take 5 (drop 5 x))"
    and s: "(case drop 10 x of [] \<Rightarrow> True | v # ds \<Rightarrow> v = 118 \<and> ds \<noteq> [] \<and> list_all dec ds)"
    by (simp_all add: arxiv_id_def)
  have e: "id_match dec x =
      Some (take 10 x @ (if prefix [118] (drop 10 x) \<and> takeWhile dec (drop 1 (drop 10 x)) \<noteq> []
                then 118 # takeWhile dec (drop 1 (drop 10 x)) else []))"
    using c by (simp only: id_match_def Let_def simp_thms if_True)
  have "take 10 x @ (if prefix [118] (drop 10 x) \<and> takeWhile dec (drop 1 (drop 10 x)) \<noteq> []
                then 118 # takeWhile dec (drop 1 (drop 10 x)) else []) = x"
  proof (cases "drop 10 x")
    case Nil
    then show ?thesis by simp
  next
    case (Cons v ds)
    with s have v: "v = 118" "ds \<noteq> []" "list_all dec ds" by simp_all
    then have tw: "takeWhile dec ds = ds" by (simp add: list_all_iff)
    from v(1,2) have "(if prefix [118] (drop 10 x) \<and> takeWhile dec (drop 1 (drop 10 x)) \<noteq> []
                then 118 # takeWhile dec (drop 1 (drop 10 x)) else []) = drop 10 x"
      by (simp add: Cons tw)
    then show ?thesis by (simp only: append_take_drop_id)
  qed
  with e show ?thesis by (simp only:)
qed

lemma re_search_abs_exact:
  assumes "arxiv_id dec x"
  shows "re_search_abs dec (asc ''/abs/'' @ x) = Some x"
proof -
  have "asc ''/abs/'' @ x = 47 # (asc ''abs/'' @ x)" by (simp add: asc_def)
  moreover have "prefix (asc ''/abs/'') (47 # (asc ''abs/'' @ x))" by (simp add: asc_def)
  moreover have "drop 5 (47 # (asc ''abs/'' @ x)) = x" by (simp add: asc_def)
  ultimately show ?thesis using id_match_exact [OF assms] by simp
qed


lemma map_map_filter:
  "map g (List.map_filter f xs) = List.map_filter (\<lambda>x. map_option g (f x)) xs"
  by (induction xs) (auto simp: List.map_filter_simps split: option.splits)






subsection \<open>Example blocks\<close>

text \<open>
  Head blocks without a link into \<open>/abs/\<close>, with such a link but no identifier in it,
  with a versioned, a plain and an over-long identifier; and a body block with none of
  the three elements.
\<close>

definition dt_nolink :: dt_block where
  "dt_nolink = \<lparr>anchors = [None, Some (asc ''/pdf/2401.12345'')]\<rparr>"

definition dt_noid :: dt_block where
  "dt_noid = \<lparr>anchors = [Some (asc ''/abs/astro-ph'')]\<rparr>"

definition dt_v2 :: dt_block where
  "dt_v2 = \<lparr>anchors = [None, Some (asc ''/pdf/2401.12345v2''), Some (asc ''/abs/2401.12345v2'')]\<rparr>"

definition dt_plain :: dt_block where
  "dt_plain = \<lparr>anchors = [Some (asc ''/abs/2401.12345'')]\<rparr>"

definition dt_long :: dt_block where
  "dt_long = \<lparr>anchors = [Some (asc ''/abs/2401.123456'')]\<rparr>"

definition dd_empty :: dd_block where
  "dd_empty = \<lparr>list_title = None, p_mathjax = None, list_subjects = None\<rparr>"

lemmas parser_eval = parse_list_def loop_body_def id_match_def ascii_digit_def BASE_def
  get_text_def strip_def replace_first_def code_match_def code_char_def
  dt_nolink_def dt_noid_def dt_v2_def dt_plain_def dt_long_def dd_empty_def arxiv_id_def
  head_id_def subjects_text_def

subsection \<open>Entries and their identifiers\<close>

text \<open>
  Claim C3. Every entry that \<open>parse_list\<close> returns has a non-empty \<open>id\<close> of the form
  four digits, dot, five digits, optionally \<open>v\<close> and digits, and that \<open>id\<close> follows
  \<open>/abs/\<close> in the target of a hyperlink of a head block whose target starts with
  \<open>/abs/\<close>. The identifiers of the entries are, in order, the identifiers of the pairs
  whose head block yields one: a pair whose head block has no such hyperlink, or whose
  hyperlink target holds no identifier, contributes no entry.
\<close>

theorem parse_list_ids:
  "(\<forall>e \<in> set (parse_list dec dts dds).
      id' e \<noteq> [] \<and> arxiv_id dec (id' e) \<and>
      (\<exists>dt \<in> set dts. \<exists>href. Some href \<in> set (anchors dt) \<and> prefix (asc ''/abs/'') href \<and>
         (\<exists>pre post. href = pre @ asc ''/abs/'' @ id' e @ post)))
   \<and> map id' (parse_list dec dts dds) = List.map_filter (\<lambda>(dt, dd). head_id dec dt) (zip dts dds)"
proof (intro conjI ballI)
  fix e assume "e \<in> set (parse_list dec dts dds)"
  then obtain p where p: "p \<in> set (zip dts dds)" "loop_body dec (fst p) (snd p) = Some e"
    by (auto simp: parse_list_mem)
  from p(1) have dt: "fst p \<in> set dts" by (metis prod.collapse set_zip_leftD)
  from loop_body_Some(1) [OF p(2)] obtain href
    where h: "select_one_abs (anchors (fst p)) = Some href" "re_search_abs dec href = Some (id' e)"
    by blast
  from re_search_abs_Some [OF h(2)] have a: "arxiv_id dec (id' e)"
    and s: "\<exists>pre post. href = pre @ asc ''/abs/'' @ id' e @ post" by simp_all
  from a show "id' e \<noteq> []" by (rule arxiv_id_nonempty)
  from a show "arxiv_id dec (id' e)" .
  from select_one_abs_Some [OF h(1)] s dt
  show "\<exists>dt \<in> set dts. \<exists>href. Some href \<in> set (anchors dt) \<and> prefix (asc ''/abs/'') href \<and>
         (\<exists>pre post. href = pre @ asc ''/abs/'' @ id' e @ post)" by blast
next
  show "map id' (parse_list dec dts dds) = List.map_filter (\<lambda>(dt, dd). head_id dec dt) (zip dts dds)"
    by (simp add: parse_list_map_filter map_map_filter case_prod_unfold loop_body_id)
qed

theorem parse_list_ids_witness:
  "map id' (parse_list ascii_digit [dt_nolink, dt_v2, dt_noid] [dd_empty, dd_empty, dd_empty])
     = [asc ''2401.12345v2'']
   \<and> arxiv_id ascii_digit (asc ''2401.12345v2'')
   \<and> head_id ascii_digit dt_nolink = None
   \<and> head_id ascii_digit dt_noid = None"
proof -
  have ev: "parse_list ascii_digit [dt_nolink, dt_v2, dt_noid] [dd_empty, dd_empty, dd_empty]
      = [\<lparr>id' = asc ''2401.12345v2'', title = [], abstract = [],
          abs_url = asc ''https://arxiv.org/abs/2401.12345v2'', codes = {}\<rparr>]"
    by (simp add: parser_eval normalizer_eval)
  have hd: "head_id ascii_digit dt_nolink = None \<and> head_id ascii_digit dt_noid = None"
    by (simp add: parser_eval normalizer_eval)
  from parse_list_ids [of ascii_digit "[dt_nolink, dt_v2, dt_noid]" "[dd_empty, dd_empty, dd_empty]"]
  have "\<forall>e \<in> set (parse_list ascii_digit [dt_nolink, dt_v2, dt_noid] [dd_empty, dd_empty, dd_empty]).
          arxiv_id ascii_digit (id' e)" by blast
  with ev have "arxiv_id ascii_digit (asc ''2401.12345v2'')" by simp
  with ev hd show ?thesis by simp
qed




text \<open>
  Claim C5, as amended. The \<open>abs_url\<close> of an entry is \<open>BASE\<close> followed by the target of
  the hyperlink from which its \<open>id\<close> was extracted, so it is determined by that target.
  When the target is exactly \<open>/abs/\<close> followed by an identifier, the \<open>id\<close> is that
  identifier and \<open>abs_url\<close> is \<open>BASE\<close>, \<open>/abs/\<close> and the \<open>id\<close>.
\<close>

theorem abs_url_from_href:
  "(\<forall>e \<in> set (parse_list dec dts dds).
      \<exists>dt \<in> set dts. \<exists>href. select_one_abs (anchors dt) = Some href \<and>
         re_search_abs dec href = Some (id' e) \<and> abs_url e = BASE @ href)
   \<and> (arxiv_id dec x \<and> select_one_abs (anchors dt) = Some (asc ''/abs/'' @ x)
        \<longrightarrow> (\<exists>e. loop_body dec dt dd = Some e \<and> id' e = x \<and>
                 abs_url e = BASE @ asc ''/abs/'' @ id' e))"
proof (intro conjI ballI impI)
  fix e assume "e \<in> set (parse_list dec dts dds)"
  then obtain p where p: "p \<in> set (zip dts dds)" "loop_body dec (fst p) (snd p) = Some e"
    by (auto simp: parse_list_mem)
  from p(1) have dt: "fst p \<in> set dts" by (metis prod.collapse set_zip_leftD)
  with loop_body_Some(1) [OF p(2)]
  show "\<exists>dt \<in> set dts. \<exists>href. select_one_abs (anchors dt) = Some href \<and>
         re_search_abs dec href = Some (id' e) \<and> abs_url e = BASE @ href" by blast
next
  assume a: "arxiv_id dec x \<and> select_one_abs (anchors dt) = Some (asc ''/abs/'' @ x)"
  then have "re_search_abs dec (asc ''/abs/'' @ x) = Some x" by (intro re_search_abs_exact) simp
  with a show "\<exists>e. loop_body dec dt dd = Some e \<and> id' e = x \<and>
                 abs_url e = BASE @ asc ''/abs/'' @ id' e"
    by (simp add: loop_body_def Let_def)
qed

theorem abs_url_from_href_witness:
  "arxiv_id ascii_digit (asc ''2401.12345'')
   \<and> select_one_abs (anchors dt_plain) = Some (asc ''/abs/'' @ asc ''2401.12345'')
   \<and> map abs_url (parse_list ascii_digit [dt_plain] [dd_empty])
       = [BASE @ asc ''/abs/'' @ asc ''2401.12345'']"
proof -
  have h: "arxiv_id ascii_digit (asc ''2401.12345'')
      \<and> select_one_abs (anchors dt_plain) = Some (asc ''/abs/'' @ asc ''2401.12345'')"
    by (simp add: parser_eval normalizer_eval)
  with abs_url_from_href [of ascii_digit "[]" "[]" "asc ''2401.12345''" dt_plain dd_empty]
  obtain e where e: "loop_body ascii_digit dt_plain dd_empty = Some e"
    "id' e = asc ''2401.12345''" "abs_url e = BASE @ asc ''/abs/'' @ id' e" by blast
  then have "map abs_url (parse_list ascii_digit [dt_plain] [dd_empty])
       = [BASE @ asc ''/abs/'' @ asc ''2401.12345'']"
    by (simp add: parse_list_def)
  with h show ?thesis by simp
qed

text \<open>
  The claim as it was stated fails: the targets \<open>/abs/2401.12345\<close> and
  \<open>/abs/2401.123456\<close> give the same \<open>id\<close>, since the pattern stops after five digits,
  and different \<open>abs_url\<close>s.
\<close>

theorem abs_url_from_href_counterexample:
  "map id' (parse_list ascii_digit [dt_plain] [dd_empty]) = [asc ''2401.12345'']
   \<and> map id' (parse_list ascii_digit [dt_long] [dd_empty]) = [asc ''2401.12345'']
   \<and> map abs_url (parse_list ascii_digit [dt_plain] [dd_empty])
       = [asc ''https://arxiv.org/abs/2401.12345'']
   \<and> map abs_url (parse_list ascii_digit [dt_long] [dd_empty])
       = [asc ''https://arxiv.org/abs/2401.123456'']
   \<and> asc ''https://arxiv.org/abs/2401.12345'' \<noteq> asc ''https://arxiv.org/abs/2401.123456''"
  by (simp add: parser_eval normalizer_eval)

subsection \<open>The title\<close>

text \<open>
  Claim C6 says that the label \<open>Title:\<close> is stripped only when it leads the text of
  the title element. The source removes its first occurrence wherever it is: for the
  title text \<open>Working Title: Galaxies\<close>, which does not start with the label, the entry's
  title is \<open>Working  Galaxies\<close>. The abstract, guarded by \<open>startswith\<close>, keeps a label
  inside its text.
\<close>

theorem title_label_inside:
  "\<not> prefix (asc ''Title:'') (get_text [32] [asc ''Working Title: Galaxies''])
   \<and> map title (parse_list ascii_digit [dt_plain]
        [\<lparr>list_title = Some [asc ''Working Title: Galaxies''],
          p_mathjax = None, list_subjects = None\<rparr>])
     = [asc ''Working  Galaxies'']
   \<and> map abstract (parse_list ascii_digit [dt_plain]
        [\<lparr>list_title = None,
          p_mathjax = Some [asc ''The Abstract: of it''], list_subjects = None\<rparr>])
     = [asc ''The Abstract: of it'']"
  by (simp add: parser_eval normalizer_eval)

subsection \<open>The subject codes\<close>

lemma not_code_char_brackets: "\<not> code_char 40" "\<not> code_char 41"
  by (simp_all add: code_char_def)

lemma code_match_Some:
  assumes "code_match s = Some (tok, rest)"
  shows "s = 40 # tok @ 41 # rest \<and> tok \<noteq> [] \<and> list_all code_char tok"
proof -
  from assms obtain c cs where s: "s = c # cs" by (cases s) (auto simp: code_match_def)
  from assms s have c: "c = 40" and t: "tok = takeWhile code_char cs" and ne: "tok \<noteq> []"
    and p: "prefix [41] (dropWhile code_char cs)" and r: "rest = drop 1 (dropWhile code_char cs)"
    by (auto simp: code_match_def Let_def split: if_splits)
  from p r have "dropWhile code_char cs = 41 # rest" by (auto simp: prefix_def)
  with t have "cs = tok @ 41 # rest" by (metis takeWhile_dropWhile_id)
  moreover from t have "list_all code_char tok" by (simp add: list_all_iff) (meson set_takeWhileD)
  ultimately show ?thesis using s c ne by simp
qed

lemma code_match_at_token:
  assumes "tok \<noteq> []" and "list_all code_char tok"
  shows "code_match (40 # tok @ 41 # post) = Some (tok, post)"
proof -
  from assms(2) have a: "\<forall>x \<in> set tok. code_char x" by (simp add: list_all_iff)
  have "takeWhile code_char (tok @ 41 # post) = tok"
    using a by (simp add: takeWhile_append2 not_code_char_brackets)
  moreover have "dropWhile code_char (tok @ 41 # post) = 41 # post"
    using a by (simp add: dropWhile_append2 not_code_char_brackets)
  ultimately show ?thesis using assms(1) by (simp add: code_match_def)
qed

lemma findall_codes_sound:
  "tok \<in> set (findall_codes s) \<Longrightarrow>
     tok \<noteq> [] \<and> list_all code_char tok \<and> (\<exists>pre post. s = pre @ [40] @ tok @ [41] @ post)"
proof (induction s rule: findall_codes.induct)
  case 1
  then show ?case by simp
next
  case (2 c cs)
  show ?case
  proof (cases "code_match (c # cs)")
    case None
    with "2.prems" have "tok \<in> set (findall_codes cs)" by simp
    from "2.IH"(1) [OF None this] obtain pre post
      where "tok \<noteq> []" "list_all code_char tok" "cs = pre @ [40] @ tok @ [41] @ post" by blast
    then have "c # cs = (c # pre) @ [40] @ tok @ [41] @ post" by simp
    with \<open>tok \<noteq> []\<close> \<open>list_all code_char tok\<close> show ?thesis by blast
  next
    case (Some x)
    obtain tok' rest where x: "x = (tok', rest)" by (cases x)
    from code_match_Some [of "c # cs" tok' rest] Some x
    have m: "c # cs = 40 # tok' @ 41 # rest" "tok' \<noteq> []" "list_all code_char tok'" by simp_all
    from "2.prems" Some x consider "tok = tok'" | "tok \<in> set (findall_codes rest)" by auto
    then show ?thesis
    proof cases
      case 1
      from m(1) have "c # cs = [] @ [40] @ tok' @ [41] @ rest" by simp
      with 1 m(2,3) show ?thesis by blast
    next
      case 2
      from "2.IH"(2) [OF Some x [symmetric] 2] obtain pre post
        where t: "tok \<noteq> []" "list_all code_char tok" "rest = pre @ [40] @ tok @ [41] @ post"
        by blast
      from m(1) t(3) have "c # cs = (40 # tok' @ 41 # pre) @ [40] @ tok @ [41] @ post" by simp
      with t(1,2) show ?thesis by blast
    qed
  qed
qed

lemma match_before_token:
  assumes cs: "cs = pre @ 40 # r"
    and m: "code_match (c # cs) = Some (tok', rest)"
  shows "\<exists>pre'. rest = pre' @ 40 # r"
proof -
  from m have p: "prefix [41] (dropWhile code_char cs)"
    and rest: "rest = drop 1 (dropWhile code_char cs)"
    by (auto simp: code_match_def Let_def split: if_splits)
  have ex: "\<exists>x \<in> set pre. \<not> code_char x"
  proof (rule ccontr)
    assume "\<not> (\<exists>x \<in> set pre. \<not> code_char x)"
    then have "\<forall>x \<in> set pre. code_char x" by simp
    then have "dropWhile code_char cs = 40 # r"
      unfolding cs by (simp add: dropWhile_append2 not_code_char_brackets)
    with p show False by simp
  qed
  then obtain x where "x \<in> set pre" "\<not> code_char x" by blast
  then have d: "dropWhile code_char cs = dropWhile code_char pre @ 40 # r"
    unfolding cs by (rule dropWhile_append1)
  from ex have "dropWhile code_char pre \<noteq> []" by (simp add: dropWhile_eq_Nil_conv)
  then obtain y ys where "dropWhile code_char pre = y # ys" by (cases "dropWhile code_char pre") auto
  with d rest have "rest = ys @ 40 # r" by simp
  then show ?thesis by blast
qed

lemma findall_codes_complete:
  "s = pre @ [40] @ tok @ [41] @ post \<Longrightarrow> tok \<noteq> [] \<Longrightarrow> list_all code_char tok \<Longrightarrow>
     tok \<in> set (findall_codes s)"
proof (induction s arbitrary: pre rule: findall_codes.induct)
  case 1
  then show ?case by simp
next
  case (2 c cs)
  show ?case
  proof (cases pre)
    case Nil
    with "2.prems"(1) have "c # cs = 40 # tok @ 41 # post" by simp
    with code_match_at_token [OF "2.prems"(2,3), of post]
    have "code_match (c # cs) = Some (tok, post)" by simp
    then show ?thesis by simp
  next
    case (Cons p pre')
    with "2.prems"(1) have cs: "cs = pre' @ [40] @ tok @ [41] @ post" by simp
    show ?thesis
    proof (cases "code_match (c # cs)")
      case None
      from "2.IH"(1) [OF None cs "2.prems"(2,3)] None show ?thesis by simp
    next
      case (Some x)
      obtain tok' rest where x: "x = (tok', rest)" by (cases x)
      from cs have "cs = pre' @ 40 # (tok @ [41] @ post)" by simp
      from match_before_token [OF this] Some x
      obtain pre'' where "rest = pre'' @ 40 # (tok @ [41] @ post)" by blast
      then have "rest = pre'' @ [40] @ tok @ [41] @ post" by simp
      from "2.IH"(2) [OF Some x [symmetric] this "2.prems"(2,3)] Some x show ?thesis by simp
    qed
  qed
qed

text \<open>
  Claim C8. For every head/body pair that yields an entry, the \<open>codes\<close> of the entry are
  the set of all tokens that stand between round brackets in the flattened subjects text
  and consist of one or more characters of \<open>[A-Za-z0-9.\-]\<close>. The field is a set, so a
  token that occurs twice is in it once; every member is of that grammar; when the
  subjects element is absent the set is empty, as it is when the text holds no such
  token, and no error is raised.
\<close>

theorem codes_are_parenthesized_tokens:
  "(loop_body dec dt dd = Some e \<longrightarrow>
      codes e = {tok. tok \<noteq> [] \<and> list_all code_char tok \<and>
                   (\<exists>pre post. subjects_text dd = pre @ [40] @ tok @ [41] @ post)})
   \<and> (loop_body dec dt dd = Some e \<and> list_subjects dd = None \<longrightarrow> codes e = {})
   \<and> (\<forall>e \<in> set (parse_list dec dts dds). \<forall>tok \<in> codes e. tok \<noteq> [] \<and> list_all code_char tok)"
proof -
  have c1: "codes e = {tok. tok \<noteq> [] \<and> list_all code_char tok \<and>
                   (\<exists>pre post. subjects_text dd = pre @ [40] @ tok @ [41] @ post)}"
    if a: "loop_body dec dt dd = Some e"
  proof (rule set_eqI)
    fix tok
    have "tok \<in> set (findall_codes (subjects_text dd)) \<longleftrightarrow>
        tok \<noteq> [] \<and> list_all code_char tok \<and>
        (\<exists>pre post. subjects_text dd = pre @ [40] @ tok @ [41] @ post)"
    proof
      assume "tok \<in> set (findall_codes (subjects_text dd))"
      then show "tok \<noteq> [] \<and> list_all code_char tok \<and>
        (\<exists>pre post. subjects_text dd = pre @ [40] @ tok @ [41] @ post)"
        by (rule findall_codes_sound)
    next
      assume r: "tok \<noteq> [] \<and> list_all code_char tok \<and>
        (\<exists>pre post. subjects_text dd = pre @ [40] @ tok @ [41] @ post)"
      then obtain pre post where "subjects_text dd = pre @ [40] @ tok @ [41] @ post" by blast
      from findall_codes_complete [OF this] r
      show "tok \<in> set (findall_codes (subjects_text dd))" by simp
    qed
    then show "tok \<in> codes e \<longleftrightarrow>
        tok \<in> {tok. tok \<noteq> [] \<and> list_all code_char tok \<and>
                   (\<exists>pre post. subjects_text dd = pre @ [40] @ tok @ [41] @ post)}"
      by (simp only: loop_body_Some(2) [OF a] mem_Collect_eq)
  qed
  have c2: "codes e = {}" if a: "loop_body dec dt dd = Some e \<and> list_subjects dd = None"
  proof -
    from a have "codes e = set (findall_codes (subjects_text dd))"
      using loop_body_Some(2) [of dec dt dd e] by simp
    with a show ?thesis by (simp add: subjects_text_def)
  qed
  have c3: "tok \<noteq> [] \<and> list_all code_char tok"
    if m: "e \<in> set (parse_list dec dts dds)" and t: "tok \<in> codes e" for e tok
  proof -
    from m obtain p where "loop_body dec (fst p) (snd p) = Some e"
      by (auto simp: parse_list_mem)
    from loop_body_Some(2) [OF this] t have "tok \<in> set (findall_codes (subjects_text (snd p)))"
      by simp
    from findall_codes_sound [OF this] show ?thesis by simp
  qed
  show ?thesis
  proof (intro conjI)
    show "loop_body dec dt dd = Some e \<longrightarrow>
      codes e = {tok. tok \<noteq> [] \<and> list_all code_char tok \<and>
                   (\<exists>pre post. subjects_text dd = pre @ [40] @ tok @ [41] @ post)}"
      by (rule impI) (rule c1)
    show "loop_body dec dt dd = Some e \<and> list_subjects dd = None \<longrightarrow> codes e = {}"
      by (rule impI) (rule c2)
    show "\<forall>e \<in> set (parse_list dec dts dds). \<forall>tok \<in> codes e. tok \<noteq> [] \<and> list_all code_char tok"
      by (intro ballI) (rule c3)
  qed
qed

text \<open>
  Body blocks with a subjects element: one with two codes, the first of them twice, and
  one whose brackets hold no code.
\<close>

definition dd_subjects :: dd_block where
  "dd_subjects =
     \<lparr>list_title = None, p_mathjax = None,
      list_subjects = Some [asc ''Subjects:'',
        asc '' Astrophysics of Galaxies (astro-ph.GA); Instrumentation (astro-ph.IM); Galaxies (astro-ph.GA) '']\<rparr>"

definition dd_no_codes :: dd_block where
  "dd_no_codes =
     \<lparr>list_title = None, p_mathjax = None,
      list_subjects = Some [asc ''Subjects: none (not yet) ()'']\<rparr>"

theorem codes_are_parenthesized_tokens_witness:
  "map codes (parse_list ascii_digit [dt_plain, dt_plain, dt_plain] [dd_subjects, dd_no_codes, dd_empty])
     = [{asc ''astro-ph.GA'', asc ''astro-ph.IM''}, {}, {}]
   \<and> list_all code_char (asc ''astro-ph.GA'')
   \<and> list_subjects dd_empty = None"
proof -
  have ev: "map codes (parse_list ascii_digit [dt_plain, dt_plain, dt_plain]
                [dd_subjects, dd_no_codes, dd_empty])
     = [{asc ''astro-ph.GA'', asc ''astro-ph.IM''}, {}, {}]"
    by (simp add: parser_eval normalizer_eval dd_subjects_def dd_no_codes_def insert_commute)
  have e1: "loop_body ascii_digit dt_plain dd_subjects
      = Some \<lparr>id' = asc ''2401.12345'', title = [], abstract = [],
              abs_url = asc ''https://arxiv.org/abs/2401.12345'',
              codes = {asc ''astro-ph.GA'', asc ''astro-ph.IM''}\<rparr>"
    by (simp add: parser_eval normalizer_eval dd_subjects_def insert_commute)
  have k: "codes \<lparr>id' = asc ''2401.12345'', title = [], abstract = [],
        abs_url = asc ''https://arxiv.org/abs/2401.12345'',
        codes = {asc ''astro-ph.GA'', asc ''astro-ph.IM''}\<rparr>
      = {tok. tok \<noteq> [] \<and> list_all code_char tok \<and>
              (\<exists>pre post. subjects_text dd_subjects = pre @ [40] @ tok @ [41] @ post)}"
    by (rule codes_are_parenthesized_tokens [of ascii_digit dt_plain dd_subjects _ "[]" "[]",
          THEN conjunct1, THEN mp, OF e1])
  have "asc ''astro-ph.GA'' \<in> codes \<lparr>id' = asc ''2401.12345'', title = [], abstract = [],
        abs_url = asc ''https://arxiv.org/abs/2401.12345'',
        codes = {asc ''astro-ph.GA'', asc ''astro-ph.IM''}\<rparr>"
    by simp
  then have "asc ''astro-ph.GA''
      \<in> {tok. tok \<noteq> [] \<and> list_all code_char tok \<and>
              (\<exists>pre post. subjects_text dd_subjects = pre @ [40] @ tok @ [41] @ post)}"
    by (simp only: k)
  then have "asc ''astro-ph.GA'' \<noteq> [] \<and> list_all code_char (asc ''astro-ph.GA'') \<and>
      (\<exists>pre post. subjects_text dd_subjects = pre @ [40] @ asc ''astro-ph.GA'' @ [41] @ post)"
    by (rule CollectD)
  then have "list_all code_char (asc ''astro-ph.GA'')" by (elim conjE)
  moreover have "list_subjects dd_empty = None" by (simp add: dd_empty_def)
  ultimately show ?thesis using ev by simp
qed

section \<open>Properties of the buckets\<close>

definition in_ga :: "entry \<Rightarrow> bool" where
  "in_ga e \<longleftrightarrow> asc ''astro-ph.GA'' \<in> codes e"

definition in_im :: "entry \<Rightarrow> bool" where
  "in_im e \<longleftrightarrow> asc ''astro-ph.IM'' \<in> codes e"

lemma bucket_loop_filter:
  "bucket_loop es (ga, im, rest) =
     (ga @ filter in_ga es,
      im @ filter (\<lambda>e. \<not> in_ga e \<and> in_im e) es,
      rest @ filter (\<lambda>e. \<not> in_ga e \<and> \<not> in_im e) es)"
  by (induction es arbitrary: ga im rest) (simp_all add: in_ga_def in_im_def)

text \<open>
  Claim C10. The loop of \<open>main\<close> puts every parsed astro-ph entry into exactly one of
  three buckets by an ordered membership test: the GA bucket when \<open>astro-ph.GA\<close> is
  among its codes, else the IM bucket when \<open>astro-ph.IM\<close> is, else the remainder. Each
  bucket is the entry list filtered by its test, so the order of the list is kept and an
  entry with both codes is in the GA bucket only; together the buckets hold every entry
  as often as the list does, and no entry is in two of them.
\<close>

theorem buckets_partition:
  "buckets es =
     (filter in_ga es,
      filter (\<lambda>e. \<not> in_ga e \<and> in_im e) es,
      filter (\<lambda>e. \<not> in_ga e \<and> \<not> in_im e) es)
   \<and> mset (fst (buckets es)) + mset (fst (snd (buckets es))) + mset (snd (snd (buckets es)))
       = mset es
   \<and> set (fst (buckets es)) \<inter> set (fst (snd (buckets es))) = {}
   \<and> set (fst (buckets es)) \<inter> set (snd (snd (buckets es))) = {}
   \<and> set (fst (snd (buckets es))) \<inter> set (snd (snd (buckets es))) = {}"
proof -
  have eq: "buckets es =
     (filter in_ga es,
      filter (\<lambda>e. \<not> in_ga e \<and> in_im e) es,
      filter (\<lambda>e. \<not> in_ga e \<and> \<not> in_im e) es)"
    by (simp add: buckets_def bucket_loop_filter)
  have ms: "mset (filter in_ga es) + mset (filter (\<lambda>e. \<not> in_ga e \<and> in_im e) es)
        + mset (filter (\<lambda>e. \<not> in_ga e \<and> \<not> in_im e) es) = mset es"
    by (induction es) auto
  show ?thesis unfolding eq using ms by auto
qed

end
